theory Spec2Isabelle
  imports Main "HOL-Library.Sublist"
begin

section \<open>Python strings\<close>

text \<open>
  A Python \<open>str\<close> is modelled as \<^typ>\<open>string\<close>; a \<^typ>\<open>char\<close> stands for the code
  point of the same number (0 to 255). \<open>is_space\<close> is \<open>str.isspace\<close> on that range, the
  characters that \<open>str.strip()\<close> removes: U+0009 to U+000D, U+001C to U+0020, U+0085 and
  U+00A0.
\<close>

definition newline :: char where
  "newline = CHR 0x0A"

definition is_space :: "char \<Rightarrow> bool" where
  "is_space c =
     (let n = (of_char c :: nat)
      in (9 \<le> n \<and> n \<le> 13) \<or> (28 \<le> n \<and> n \<le> 32) \<or> n = 133 \<or> n = 160)"

definition strip :: "string \<Rightarrow> string" where
  "strip s = rev (dropWhile is_space (rev (dropWhile is_space s)))"

text \<open>
  An exception raised by a library call: one of class \<open>Exception\<close>, with its message,
  which \<open>except Exception\<close> catches, or \<open>KeyboardInterrupt\<close>, which it does not.
\<close>

datatype py_exn = KeyboardInterrupt | Exception string

section \<open>The chunker (lmstudio\_kokoro\_speak\_stream.py)\<close>

text \<open>
  \<open>SENT_END_RE = re.compile(r"([.!?]+|\n)")\<close>: a delimiter is a maximal run of the
  punctuation characters \<open>.\<close>, \<open>!\<close>, \<open>?\<close>, or one newline.
\<close>

definition is_punct :: "char \<Rightarrow> bool" where
  "is_punct c = (c = CHR ''.'' \<or> c = CHR ''!'' \<or> c = CHR ''?'')"

definition is_delim :: "char \<Rightarrow> bool" where
  "is_delim c = (is_punct c \<or> c = newline)"

text \<open>
  \<open>SENT_END_RE.split(buffer)\<close>. The pattern is one capturing group, so \<open>re.split\<close>
  returns the texts between the matches with the matched delimiters in between:
  \<open>[text, delimiter, text, delimiter, ..., text]\<close>. Matches are found left to right, each
  at the first position where the pattern matches; \<open>[.!?]+\<close> is greedy and is tried
  before \<open>\n\<close>. The pattern never matches the empty string.
\<close>

function sent_end_split :: "string \<Rightarrow> string list" where
  "sent_end_split s =
     (let text_part = takeWhile (\<lambda>c. \<not> is_delim c) s in
      case dropWhile (\<lambda>c. \<not> is_delim c) s of
        [] \<Rightarrow> [text_part]
      | c # cs \<Rightarrow>
          if is_punct c
          then text_part # (c # takeWhile is_punct cs) # sent_end_split (dropWhile is_punct cs)
          else text_part # [c] # sent_end_split cs)"
  by pat_completeness auto
termination
proof (relation "measure length")
  show "wf (measure length)" by simp
next
  fix s :: string and text_part c cs
  assume d: "dropWhile (\<lambda>c. \<not> is_delim c) s = c # cs"
  have "length (dropWhile (\<lambda>c. \<not> is_delim c) s) \<le> length s"
    by (rule length_dropWhile_le)
  with d have l: "length cs < length s" by simp
  have "length (dropWhile is_punct cs) \<le> length cs"
    by (rule length_dropWhile_le)
  with l show "(dropWhile is_punct cs, s) \<in> measure length" by simp
  from l show "(cs, s) \<in> measure length" by simp
qed

declare sent_end_split.simps [simp del]

text \<open>
  The loop \<open>for i in range(0, len(parts) - 1, 2)\<close> of \<open>split_into_speakable_chunks\<close>:
  it takes the parts two at a time, \<open>parts[i]\<close> and \<open>parts[i + 1]\<close>, and stops when
  fewer than two are left.
\<close>

fun chunk_loop :: "string list \<Rightarrow> string list" where
  "chunk_loop (text_part # ender # rest) =
     (let cur = text_part @ ender
      in (if strip cur \<noteq> [] then [strip cur] else []) @ chunk_loop rest)"
| "chunk_loop _ = []"

definition split_into_speakable_chunks :: "string \<Rightarrow> string list \<times> string" where
  "split_into_speakable_chunks buffer =
     (let parts = sent_end_split buffer;
          chunks = chunk_loop parts;
          remainder = (if length parts mod 2 = 1 then last parts else [])
      in (chunks, remainder))"

text \<open>
  The values that \<open>cur\<close> takes in the loop, before trimming: each text with the
  delimiter that ends it.
\<close>

fun pieces :: "string list \<Rightarrow> string list" where
  "pieces (text_part # ender # rest) = (text_part @ ender) # pieces rest"
| "pieces _ = []"

text \<open>
  Where a chunk \<open>c\<close> ends when \<open>post\<close> is the text after it in the buffer: on a
  punctuation character, or before a newline that only whitespace separates from it.
\<close>

definition at_boundary :: "string \<Rightarrow> string \<Rightarrow> bool" where
  "at_boundary c post = (is_punct (last c) \<or> newline \<in> set (takeWhile is_space post))"

section \<open>The streaming program (main of lmstudio\_kokoro\_speak\_stream.py)\<close>

datatype role = User | Assistant

type_synonym message = "role \<times> string"

text \<open>
  The state of the running program. The two queues are lists: \<open>put\<close> appends at the end,
  \<open>get\<close> takes the head and blocks while the list is empty. \<open>tts_running\<close> and
  \<open>player_running\<close> say whether the loop of each worker thread is still running.
  \<open>printed\<close> holds the error lines written to the console. Three fields are not in the
  source and only record what happened: \<open>played\<close>, the buffers handed to \<open>sd.play\<close>, in
  order; \<open>tts_puts\<close>, every item ever put on \<open>tts_q\<close>, in order; and \<open>tts_calls\<close>, the
  number of calls of the speech engine made so far.
\<close>

record 'a stream_state =
  messages :: "message list"
  tts_q :: "string option list"
  audio_q :: "'a option list"
  tts_running :: bool
  player_running :: bool
  printed :: "string list"
  played :: "'a list"
  tts_puts :: "string option list"
  tts_calls :: nat

definition init_state :: "'a stream_state" where
  "init_state =
     \<lparr>messages = [], tts_q = [], audio_q = [], tts_running = True, player_running = True,
      printed = [], played = [], tts_puts = [], tts_calls = 0\<rparr>"

definition tts_put :: "string option \<Rightarrow> 'a stream_state \<Rightarrow> 'a stream_state" where
  "tts_put item st = st\<lparr>tts_q := tts_q st @ [item], tts_puts := tts_puts st @ [item]\<rparr>"

fun tts_put_all :: "string list \<Rightarrow> 'a stream_state \<Rightarrow> 'a stream_state" where
  "tts_put_all [] st = st"
| "tts_put_all (c # cs) st = tts_put_all cs (tts_put (Some c) st)"

text \<open>
  \<open>audio_player\<close>, one turn of its loop, taken when \<open>audio_q\<close> is not empty.
  \<open>sd.play(..., blocking=True)\<close> returns when the buffer has been played.
\<close>

definition audio_player_step :: "'a stream_state \<Rightarrow> 'a stream_state" where
  "audio_player_step st =
     (case audio_q st of
        [] \<Rightarrow> st
      | None # rest \<Rightarrow> st\<lparr>audio_q := rest, player_running := False\<rparr>
      | Some audio # rest \<Rightarrow> st\<lparr>audio_q := rest, played := played st @ [audio]\<rparr>)"

text \<open>
  \<open>tts_worker\<close>, one turn of its loop, taken when \<open>tts_q\<close> is not empty. The speech
  engine \<open>next(pipeline(text, voice=KOKORO_VOICE))\<close> is a parameter: it gets the number of
  the call and the text, and returns the audio or raises. \<open>except Exception\<close> does not
  catch an exception outside the class \<open>Exception\<close>, which ends the thread.
\<close>

definition tts_worker_step ::
  "(nat \<Rightarrow> string \<Rightarrow> py_exn + 'a) \<Rightarrow> 'a stream_state \<Rightarrow> 'a stream_state" where
  "tts_worker_step pipeline st =
     (case tts_q st of
        [] \<Rightarrow> st
      | None # rest \<Rightarrow>
          st\<lparr>tts_q := rest, audio_q := audio_q st @ [None], tts_running := False\<rparr>
      | Some text # rest \<Rightarrow>
          (case pipeline (tts_calls st) text of
             Inr audio \<Rightarrow>
               st\<lparr>tts_q := rest, audio_q := audio_q st @ [Some audio],
                  tts_calls := Suc (tts_calls st)\<rparr>
           | Inl (Exception e) \<Rightarrow>
               st\<lparr>tts_q := rest, printed := printed st @ [newline # ''[TTS error] '' @ e @ [newline]],
                  tts_calls := Suc (tts_calls st)\<rparr>
           | Inl KeyboardInterrupt \<Rightarrow>
               st\<lparr>tts_q := rest, tts_running := False, tts_calls := Suc (tts_calls st)\<rparr>))"

text \<open>
  The loops \<open>while True\<close> of the two workers, run on the items that are on the queue:
  a worker takes turn after turn until it leaves its loop (\<open>break\<close>, or an exception
  that is not caught) or finds its queue empty, where \<open>get\<close> blocks.
\<close>

function tts_worker ::
  "(nat \<Rightarrow> string \<Rightarrow> py_exn + 'a) \<Rightarrow> 'a stream_state \<Rightarrow> 'a stream_state" where
  "tts_worker pipeline st =
     (if tts_running st \<and> tts_q st \<noteq> []
      then tts_worker pipeline (tts_worker_step pipeline st) else st)"
  by pat_completeness auto
termination
proof (relation "measure (\<lambda>(pipeline, st). length (tts_q st))")
  show "wf (measure (\<lambda>(pipeline :: nat \<Rightarrow> string \<Rightarrow> py_exn + 'a, st :: 'a stream_state).
      length (tts_q st)))"
    by simp
next
  fix pipeline :: "nat \<Rightarrow> string \<Rightarrow> py_exn + 'a" and st :: "'a stream_state"
  assume "tts_running st \<and> tts_q st \<noteq> []"
  then have "length (tts_q (tts_worker_step pipeline st)) < length (tts_q st)"
    by (auto simp: tts_worker_step_def split: list.splits option.splits sum.splits py_exn.splits)
  then show "((pipeline, tts_worker_step pipeline st), (pipeline, st))
      \<in> measure (\<lambda>(pipeline, st). length (tts_q st))"
    by simp
qed

declare tts_worker.simps [simp del]

function audio_player :: "'a stream_state \<Rightarrow> 'a stream_state" where
  "audio_player st =
     (if player_running st \<and> audio_q st \<noteq> []
      then audio_player (audio_player_step st) else st)"
  by pat_completeness auto
termination
proof (relation "measure (\<lambda>st. length (audio_q st))")
  show "wf (measure (\<lambda>st :: 'a stream_state. length (audio_q st)))"
    by simp
next
  fix st :: "'a stream_state"
  assume "player_running st \<and> audio_q st \<noteq> []"
  then have "length (audio_q (audio_player_step st)) < length (audio_q st)"
    by (auto simp: audio_player_step_def split: list.splits option.splits)
  then show "(audio_player_step st, st) \<in> measure (\<lambda>st. length (audio_q st))"
    by simp
qed

declare audio_player.simps [simp del]

text \<open>
  The threads run interleaved: a step of the program is a \<open>put\<close> of the main thread on
  \<open>tts_q\<close>, a turn of \<open>tts_worker\<close> or a turn of \<open>audio_player\<close>, the last two only
  when the thread is running and its queue is not empty.
\<close>

inductive step ::
  "(nat \<Rightarrow> string \<Rightarrow> py_exn + 'a) \<Rightarrow> 'a stream_state \<Rightarrow> 'a stream_state \<Rightarrow> bool"
  for pipeline :: "nat \<Rightarrow> string \<Rightarrow> py_exn + 'a" where
  put: "step pipeline st (tts_put item st)"
| synthesize: "tts_running st \<Longrightarrow> tts_q st \<noteq> [] \<Longrightarrow> step pipeline st (tts_worker_step pipeline st)"
| play: "player_running st \<Longrightarrow> audio_q st \<noteq> [] \<Longrightarrow> step pipeline st (audio_player_step st)"

inductive reachable ::
  "(nat \<Rightarrow> string \<Rightarrow> py_exn + 'a) \<Rightarrow> 'a stream_state \<Rightarrow> bool"
  for pipeline :: "nat \<Rightarrow> string \<Rightarrow> py_exn + 'a" where
  start: "reachable pipeline init_state"
| after: "reachable pipeline st \<Longrightarrow> step pipeline st st' \<Longrightarrow> reachable pipeline st'"

text \<open>
  A schedule of the three threads, run from a state: each action is one step of the
  program, skipped when the thread cannot take it.
\<close>

datatype action = Put "string option" | Synthesize | Play

fun perform ::
  "(nat \<Rightarrow> string \<Rightarrow> py_exn + 'a) \<Rightarrow> action \<Rightarrow> 'a stream_state \<Rightarrow> 'a stream_state" where
  "perform pipeline (Put item) st = tts_put item st"
| "perform pipeline Synthesize st =
     (if tts_running st \<and> tts_q st \<noteq> [] then tts_worker_step pipeline st else st)"
| "perform pipeline Play st =
     (if player_running st \<and> audio_q st \<noteq> [] then audio_player_step st else st)"

fun run_schedule ::
  "(nat \<Rightarrow> string \<Rightarrow> py_exn + 'a) \<Rightarrow> action list \<Rightarrow> 'a stream_state \<Rightarrow> 'a stream_state" where
  "run_schedule pipeline [] st = st"
| "run_schedule pipeline (a # as) st = run_schedule pipeline as (perform pipeline a st)"

text \<open>The items of a queue that a worker takes before it stops at the sentinel \<open>None\<close>.\<close>

fun until_sentinel :: "'b option list \<Rightarrow> 'b list" where
  "until_sentinel [] = []"
| "until_sentinel (None # xs) = []"
| "until_sentinel (Some x # xs) = x # until_sentinel xs"

text \<open>
  The audio that \<open>tts_worker\<close> puts on \<open>audio_q\<close> for the texts it takes, in order, when
  its next call of the engine is call number \<open>n\<close>.
\<close>

fun synthesized :: "(nat \<Rightarrow> string \<Rightarrow> py_exn + 'a) \<Rightarrow> nat \<Rightarrow> string list \<Rightarrow> 'a list" where
  "synthesized pipeline n [] = []"
| "synthesized pipeline n (text # texts) =
     (case pipeline n text of
        Inr audio \<Rightarrow> audio # synthesized pipeline (Suc n) texts
      | Inl (Exception e) \<Rightarrow> synthesized pipeline (Suc n) texts
      | Inl KeyboardInterrupt \<Rightarrow> [])"

text \<open>
  The invariant of the two workers. \<open>taken\<close> are the items that \<open>tts_worker\<close> has
  taken from \<open>tts_q\<close>. While the worker runs it has seen no sentinel, has made one call
  of the engine for each item taken, has put no sentinel on \<open>audio_q\<close>, and what was
  played and what waits on \<open>audio_q\<close> is the audio of the items taken. Once it has
  stopped, no later \<open>put\<close> changes the audio that is or will be played.
\<close>

definition pipeline_inv :: "(nat \<Rightarrow> string \<Rightarrow> py_exn + 'a) \<Rightarrow> 'a stream_state \<Rightarrow> bool" where
  "pipeline_inv pipeline st =
     (\<exists>taken.
        tts_puts st = taken @ tts_q st \<and>
        (if tts_running st
         then None \<notin> set taken \<and> tts_calls st = length taken \<and> player_running st \<and>
              None \<notin> set (audio_q st) \<and>
              (\<forall>more. synthesized pipeline 0 (map the taken @ more) =
                 synthesized pipeline 0 (map the taken) @
                   synthesized pipeline (length taken) more) \<and>
              played st @ until_sentinel (audio_q st) = synthesized pipeline 0 (map the taken)
         else (\<forall>more. synthesized pipeline 0 (until_sentinel (tts_puts st @ more)) =
                 played st @ (if player_running st then until_sentinel (audio_q st) else []))))"

text \<open>
  The body of \<open>for event in stream\<close>. An event is \<open>delta.content\<close>, \<open>None\<close> when the
  delta or its content is missing; an empty content is skipped as well.
\<close>

fun stream_loop ::
  "string \<Rightarrow> string \<Rightarrow> 'a stream_state \<Rightarrow> string option list \<Rightarrow> string \<times> string \<times> 'a stream_state" where
  "stream_loop full buffer st [] = (full, buffer, st)"
| "stream_loop full buffer st (None # events) = stream_loop full buffer st events"
| "stream_loop full buffer st (Some token # events) =
     (if token = [] then stream_loop full buffer st events
      else
        (let (chunks, buffer') = split_into_speakable_chunks (buffer @ token)
         in stream_loop (full @ token) buffer' (tts_put_all chunks st) events))"

text \<open>
  The chunks that \<open>stream_loop\<close> puts on \<open>tts_q\<close> and the buffer it ends with, for
  events that all carry a token: the same loop without the state.
\<close>

fun feed :: "string \<Rightarrow> string list \<Rightarrow> string list \<times> string" where
  "feed buffer [] = ([], buffer)"
| "feed buffer (token # tokens) =
     (if token = [] then feed buffer tokens
      else
        (let (chunks, buffer') = split_into_speakable_chunks (buffer @ token);
             (more, final) = feed buffer' tokens
         in (chunks @ more, final)))"

text \<open>
  What the chat backend does in one turn: \<open>client.chat.completions.create\<close> raises, or it
  returns a stream that yields the events and then ends, or raises after them.
\<close>

datatype reply = CreateRaises py_exn | Stream "string option list" "py_exn option"

text \<open>
  The two \<open>except\<close> clauses of the turn; the flag says whether the chat loop goes on
  (\<open>KeyboardInterrupt\<close> leaves it with \<open>break\<close>).
\<close>

fun handle_exn :: "py_exn \<Rightarrow> 'a stream_state \<Rightarrow> 'a stream_state \<times> bool" where
  "handle_exn KeyboardInterrupt st = (st, False)"
| "handle_exn (Exception e) st = (st\<lparr>printed := printed st @ [newline # ''[LLM error] '' @ e @ [newline]]\<rparr>, True)"

text \<open>One turn of \<open>while True\<close> in \<open>main\<close>, for the line that \<open>input\<close> returned.\<close>

definition chat_turn :: "string \<Rightarrow> reply \<Rightarrow> 'a stream_state \<Rightarrow> 'a stream_state \<times> bool" where
  "chat_turn line backend st =
     (let user = strip line in
      if user = [] then (st, True)
      else
        (let st1 = st\<lparr>messages := messages st @ [(User, user)]\<rparr> in
         case backend of
           CreateRaises e \<Rightarrow> handle_exn e st1
         | Stream events failure \<Rightarrow>
             (let (full, buffer, st2) = stream_loop [] [] st1 events in
              case failure of
                Some e \<Rightarrow> handle_exn e st2
              | None \<Rightarrow>
                  (let st3 = st2\<lparr>messages := messages st2 @ [(Assistant, full)]\<rparr>
                   in (if strip buffer \<noteq> [] then tts_put (Some (strip buffer)) st3 else st3,
                       True)))))"

text \<open>
  A cut between two tokens is clean when it does not fall inside a run of punctuation:
  \<open>clean_cuts p tokens\<close> holds when no nonempty token starts with a punctuation
  character right after text that ended with one (\<open>p\<close> says whether the text before the
  first token did).
\<close>

fun clean_cuts :: "bool \<Rightarrow> string list \<Rightarrow> bool" where
  "clean_cuts p [] = True"
| "clean_cuts p (t # ts) =
     (if t = [] then clean_cuts p ts
      else (if p then \<not> is_punct (hd t) else True) \<and> clean_cuts (is_punct (last t)) ts)"

section \<open>The synthesis adapter (server.py)\<close>

text \<open>
  What the module reads and calls: the voice catalog (voice name to language code), the
  default voice, the constructor \<open>KPipeline(lang_code=...)\<close> (given the language code and
  the number of pipelines constructed before; \<open>None\<close> when it returns, the exception when
  it raises), the engine call \<open>pipeline(clean_text, voice=...)\<close> (given the pipeline, the
  text and the voice; the audio segments it yields, or the exception raised while
  iterating), and \<open>_audio_to_wav_base64\<close>. A pipeline is named by its construction number.
\<close>

record 'a env =
  voice_catalog :: "string \<rightharpoonup> string"
  DEFAULT_VOICE :: string
  KPipeline :: "string \<Rightarrow> nat \<Rightarrow> py_exn option"
  engine :: "nat \<Rightarrow> string \<Rightarrow> string \<Rightarrow> py_exn + 'a list list"
  audio_to_wav_base64 :: "'a list \<Rightarrow> string"

text \<open>
  The events of a request, kept in \<open>trace\<close> (not in the source): a pipeline constructed,
  an engine call on a pipeline, and \<open>pipelines.pop(lang_code, None)\<close> with the entry it
  removed (\<open>None\<close> when there was none).
\<close>

datatype event = Construct string nat | Call nat | Pop string "nat option"

record server_state =
  pipelines :: "string \<rightharpoonup> nat"
  constructed :: nat
  trace :: "event list"

datatype error =
    VoiceNotAvailable string
  | NoTextProvided
  | TTSFailed string "py_exn option"
  | Uncaught py_exn

definition get_voice_info :: "'a env \<Rightarrow> string option \<Rightarrow> error + string \<times> string" where
  "get_voice_info e requested =
     (let voice = strip (case requested of
                           None \<Rightarrow> DEFAULT_VOICE e
                         | Some r \<Rightarrow> if r \<noteq> [] then r else DEFAULT_VOICE e)
      in case voice_catalog e voice of
           None \<Rightarrow> Inl (VoiceNotAvailable voice)
         | Some lang \<Rightarrow> Inr (voice, lang))"

definition get_pipeline :: "'a env \<Rightarrow> string \<Rightarrow> server_state \<Rightarrow> (py_exn + nat) \<times> server_state" where
  "get_pipeline e lang_code st =
     (case pipelines st lang_code of
        Some pipeline \<Rightarrow> (Inr pipeline, st)
      | None \<Rightarrow>
          (case KPipeline e lang_code (constructed st) of
             Some exc \<Rightarrow> (Inl exc, st)
           | None \<Rightarrow>
               (let pipeline = constructed st
                in (Inr pipeline,
                    st\<lparr>pipelines := (pipelines st)(lang_code \<mapsto> pipeline),
                       constructed := Suc (constructed st),
                       trace := trace st @ [Construct lang_code pipeline]\<rparr>))))"

text \<open>
  The body of \<open>with tts_lock\<close>: the segments of size 0 are dropped, no segment left is
  \<open>RuntimeError("Kokoro returned empty audio.")\<close>, otherwise the segments are
  concatenated.
\<close>

definition run_engine :: "'a env \<Rightarrow> nat \<Rightarrow> string \<Rightarrow> string \<Rightarrow> py_exn + 'a list" where
  "run_engine e pipeline clean_text resolved_voice =
     (case engine e pipeline clean_text resolved_voice of
        Inl exc \<Rightarrow> Inl exc
      | Inr chunks \<Rightarrow>
          (let segments = filter (\<lambda>arr. arr \<noteq> []) chunks
           in if segments = [] then Inl (Exception ''Kokoro returned empty audio.'')
              else Inr (concat segments)))"

definition pop_pipeline :: "string \<Rightarrow> server_state \<Rightarrow> server_state" where
  "pop_pipeline lang_code st =
     st\<lparr>pipelines := (pipelines st)(lang_code := None),
        trace := trace st @ [Pop lang_code (pipelines st lang_code)]\<rparr>"

text \<open>
  \<open>for attempt in (0, 1)\<close>. \<open>except Exception\<close> catches the exceptions of class
  \<open>Exception\<close>; any other, and an exception of the constructor (called outside \<open>try\<close>),
  leaves \<open>synthesize_audio\<close> as it is. The list of attempts left is the loop variable; the
  first equation is the \<open>raise\<close> after the loop.
\<close>

fun attempt_loop ::
  "'a env \<Rightarrow> string \<Rightarrow> string \<Rightarrow> string \<Rightarrow> py_exn option \<Rightarrow> nat list \<Rightarrow> server_state
     \<Rightarrow> (error + string \<times> string) \<times> server_state" where
  "attempt_loop e clean_text resolved_voice lang_code last_error [] st =
     (Inl (TTSFailed resolved_voice last_error), st)"
| "attempt_loop e clean_text resolved_voice lang_code last_error (attempt # rest) st =
     (case get_pipeline e lang_code st of
        (Inl exc, st1) \<Rightarrow> (Inl (Uncaught exc), st1)
      | (Inr pipeline, st1) \<Rightarrow>
          (let st2 = st1\<lparr>trace := trace st1 @ [Call pipeline]\<rparr> in
           case run_engine e pipeline clean_text resolved_voice of
             Inr audio \<Rightarrow> (Inr (audio_to_wav_base64 e audio, resolved_voice), st2)
           | Inl KeyboardInterrupt \<Rightarrow> (Inl (Uncaught KeyboardInterrupt), st2)
           | Inl (Exception msg) \<Rightarrow>
               (let st3 = pop_pipeline lang_code st2 in
                if attempt = 0
                then attempt_loop e clean_text resolved_voice lang_code
                       (Some (Exception msg)) rest st3
                else (Inl (TTSFailed resolved_voice (Some (Exception msg))), st3))))"

definition synthesize_audio ::
  "'a env \<Rightarrow> string option \<Rightarrow> string option \<Rightarrow> server_state
     \<Rightarrow> (error + string \<times> string) \<times> server_state" where
  "synthesize_audio e text voice_name st =
     (case get_voice_info e voice_name of
        Inl err \<Rightarrow> (Inl err, st)
      | Inr (resolved_voice, lang_code) \<Rightarrow>
          (let clean_text = strip (case text of None \<Rightarrow> [] | Some t \<Rightarrow> t) in
           if clean_text = [] then (Inl NoTextProvided, st)
           else attempt_loop e clean_text resolved_voice lang_code None [0, 1] st))"

text \<open>The entries that the \<open>pop\<close>s of a trace removed from the cache for a language.\<close>

fun evictions :: "string \<Rightarrow> event list \<Rightarrow> nat list" where
  "evictions lang [] = []"
| "evictions lang (Pop l (Some p) # evs) =
     (if l = lang then p # evictions lang evs else evictions lang evs)"
| "evictions lang (ev # evs) = evictions lang evs"

fun engine_calls :: "event list \<Rightarrow> nat list" where
  "engine_calls [] = []"
| "engine_calls (Call p # evs) = p # engine_calls evs"
| "engine_calls (ev # evs) = engine_calls evs"


section \<open>Facts about \<open>strip\<close>\<close>

lemma is_space_newline: "is_space newline"
  by (simp add: is_space_def newline_def)

lemma is_punct_not_space: "is_punct c \<Longrightarrow> \<not> is_space c"
  by (auto simp: is_punct_def is_space_def)

lemma strip_decomp:
  "\<exists>l r. s = l @ strip s @ r \<and> (\<forall>c\<in>set l. is_space c) \<and> (\<forall>c\<in>set r. is_space c)"
proof -
  let ?d = "dropWhile is_space s"
  let ?l = "takeWhile is_space s"
  let ?r = "rev (takeWhile is_space (rev ?d))"
  have "rev (takeWhile is_space (rev ?d) @ dropWhile is_space (rev ?d)) = ?d"
    by (simp only: takeWhile_dropWhile_id rev_rev_ident)
  then have "rev (dropWhile is_space (rev ?d)) @ ?r = ?d"
    by (simp only: rev_append)
  then have d: "?d = strip s @ ?r"
    by (simp only: strip_def)
  have "s = ?l @ ?d" by simp
  with d have "s = ?l @ strip s @ ?r" by simp
  moreover have "\<forall>c\<in>set ?l. is_space c" by (auto dest: set_takeWhileD)
  moreover have "\<forall>c\<in>set ?r. is_space c" by (auto dest: set_takeWhileD)
  ultimately show ?thesis by blast
qed

lemma strip_last_nonspace:
  assumes "s \<noteq> []" and "\<not> is_space (last s)"
  shows "strip s = dropWhile is_space s"
proof -
  let ?d = "dropWhile is_space s"
  from assms have "last s \<in> set s" "\<not> is_space (last s)" by simp_all
  then have ne: "?d \<noteq> []" by (auto simp: dropWhile_eq_Nil_conv)
  then have "last ?d = last s" by (metis last_appendR takeWhile_dropWhile_id)
  with assms ne have "\<not> is_space (hd (rev ?d))" by (simp add: hd_rev)
  with ne have "dropWhile is_space (rev ?d) = rev ?d" by (cases "rev ?d") simp_all
  then show ?thesis by (simp add: strip_def)
qed

lemma strip_snoc_space:
  assumes "is_space c"
  shows "strip (t @ [c]) = strip t"
proof (cases "\<forall>x\<in>set t. is_space x")
  case True
  with assms have "dropWhile is_space (t @ [c]) = []" "dropWhile is_space t = []"
    by simp_all
  then show ?thesis by (simp only: strip_def)
next
  case False
  then have "dropWhile is_space (t @ [c]) = dropWhile is_space t @ [c]"
    by (auto simp: dropWhile_append1)
  with assms show ?thesis by (simp add: strip_def)
qed

text \<open>What \<open>strip\<close> returns neither starts nor ends with whitespace.\<close>

lemma strip_not_space_ends:
  assumes "strip s \<noteq> []"
  shows "\<not> is_space (hd (strip s)) \<and> \<not> is_space (last (strip s))"
proof -
  let ?d = "dropWhile is_space s"
  let ?e = "dropWhile is_space (rev ?d)"
  from assms have e: "?e \<noteq> []" by (simp add: strip_def)
  then have he: "\<not> is_space (hd ?e)" by (rule hd_dropWhile)
  from e have l: "\<not> is_space (last (strip s))" using he by (simp add: strip_def last_rev)
  from e have d: "?d \<noteq> []" by (metis dropWhile.simps(1) rev.simps(1))
  then have hd: "\<not> is_space (hd ?d)" by (rule hd_dropWhile)
  obtain r where r: "?d = strip s @ r"
    using takeWhile_dropWhile_id [of is_space "rev ?d"]
    by (metis rev_append rev_rev_ident strip_def)
  with assms have "hd (strip s) = hd ?d" by simp
  with hd l show ?thesis by simp
qed

lemma filter_strip: "filter (\<lambda>c. \<not> is_space c) (strip s) = filter (\<lambda>c. \<not> is_space c) s"
proof -
  obtain l r where s: "s = l @ strip s @ r" and l: "\<forall>c\<in>set l. is_space c"
    and r: "\<forall>c\<in>set r. is_space c"
    using strip_decomp by blast
  from l r have "filter (\<lambda>c. \<not> is_space c) l = []" "filter (\<lambda>c. \<not> is_space c) r = []"
    by (simp_all add: filter_empty_conv)
  then have "filter (\<lambda>c. \<not> is_space c) (l @ strip s @ r) = filter (\<lambda>c. \<not> is_space c) (strip s)"
    by simp
  with s show ?thesis by simp
qed

section \<open>Facts about the split of the pattern\<close>

lemma sent_end_split_plain:
  assumes "\<forall>c\<in>set s. \<not> is_delim c"
  shows "sent_end_split s = [s]"
proof -
  from assms have "takeWhile (\<lambda>c. \<not> is_delim c) s = s" "dropWhile (\<lambda>c. \<not> is_delim c) s = []"
    by simp_all
  then show ?thesis unfolding sent_end_split.simps [of s] by (simp only: Let_def list.case)
qed

lemma sent_end_split_newline:
  assumes "\<forall>c\<in>set t. \<not> is_delim c"
  shows "sent_end_split (t @ newline # r) = t # [newline] # sent_end_split r"
proof -
  have d: "is_delim newline" "\<not> is_punct newline"
    by (simp_all add: is_delim_def is_punct_def newline_def)
  from assms d have "takeWhile (\<lambda>c. \<not> is_delim c) (t @ newline # r) = t"
    "dropWhile (\<lambda>c. \<not> is_delim c) (t @ newline # r) = newline # r"
    by (simp_all add: takeWhile_append2 dropWhile_append2)
  with d show ?thesis
    unfolding sent_end_split.simps [of "t @ newline # r"] by (simp only: Let_def list.case if_False)
qed

lemma sent_end_split_punct:
  assumes "\<forall>c\<in>set t. \<not> is_delim c" and "is_punct c" and "\<forall>x\<in>set p. is_punct x"
    and "r = [] \<or> \<not> is_punct (hd r)"
  shows "sent_end_split (t @ c # p @ r) = t # (c # p) # sent_end_split r"
proof -
  from assms(2) have d: "is_delim c" by (simp add: is_delim_def)
  from assms(1) d have td: "takeWhile (\<lambda>c. \<not> is_delim c) (t @ c # p @ r) = t"
    "dropWhile (\<lambda>c. \<not> is_delim c) (t @ c # p @ r) = c # p @ r"
    by (simp_all add: takeWhile_append2 dropWhile_append2)
  from assms(3,4) have "takeWhile is_punct (p @ r) = p" "dropWhile is_punct (p @ r) = r"
    by (cases r; simp add: takeWhile_append2 dropWhile_append2)+
  with td assms(2) show ?thesis
    unfolding sent_end_split.simps [of "t @ c # p @ r"] by (simp only: Let_def list.case if_True)
qed

lemma sent_end_split_cases [case_names plain newline punct]:
  assumes "\<lbrakk>\<forall>c\<in>set s. \<not> is_delim c\<rbrakk> \<Longrightarrow> Q"
    and "\<And>t r. \<lbrakk>s = t @ newline # r; \<forall>c\<in>set t. \<not> is_delim c\<rbrakk> \<Longrightarrow> Q"
    and "\<And>t c p r. \<lbrakk>s = t @ c # p @ r; \<forall>c\<in>set t. \<not> is_delim c; is_punct c;
            \<forall>x\<in>set p. is_punct x; r = [] \<or> \<not> is_punct (hd r)\<rbrakk> \<Longrightarrow> Q"
  shows Q
proof (cases "dropWhile (\<lambda>c. \<not> is_delim c) s")
  case Nil
  then have "\<forall>c\<in>set s. \<not> is_delim c" by (simp add: dropWhile_eq_Nil_conv)
  then show ?thesis by (rule assms(1))
next
  case (Cons c cs)
  let ?t = "takeWhile (\<lambda>c. \<not> is_delim c) s"
  have s: "s = ?t @ c # cs" using Cons takeWhile_dropWhile_id [of "\<lambda>c. \<not> is_delim c" s] by simp
  have t: "\<forall>c\<in>set ?t. \<not> is_delim c" by (auto dest: set_takeWhileD)
  from Cons have dc: "is_delim c" using hd_dropWhile [of "\<lambda>c. \<not> is_delim c" s] by simp
  show ?thesis
  proof (cases "is_punct c")
    case True
    let ?p = "takeWhile is_punct cs" and ?r = "dropWhile is_punct cs"
    have a: "s = ?t @ c # ?p @ ?r" using s by simp
    have b: "\<forall>x\<in>set ?p. is_punct x" by (auto dest: set_takeWhileD)
    have c: "?r = [] \<or> \<not> is_punct (hd ?r)" using hd_dropWhile [of is_punct cs] by blast
    show ?thesis by (rule assms(3) [OF a t True b c])
  next
    case False
    with dc have "c = newline" by (simp add: is_delim_def)
    with s t show ?thesis by (auto intro: assms(2))
  qed
qed

lemma sent_end_split_induct [case_names plain newline punct]:
  assumes "\<And>s. \<forall>c\<in>set s. \<not> is_delim c \<Longrightarrow> P s"
    and "\<And>t r. \<lbrakk>\<forall>c\<in>set t. \<not> is_delim c; P r\<rbrakk> \<Longrightarrow> P (t @ newline # r)"
    and "\<And>t c p r. \<lbrakk>\<forall>c\<in>set t. \<not> is_delim c; is_punct c; \<forall>x\<in>set p. is_punct x;
            r = [] \<or> \<not> is_punct (hd r); P r\<rbrakk> \<Longrightarrow> P (t @ c # p @ r)"
  shows "P s"
proof (induction s rule: length_induct)
  case (1 s)
  show ?case
  proof (cases s rule: sent_end_split_cases)
    case plain
    then show ?thesis by (rule assms(1))
  next
    case (newline t r)
    then have "length r < length s" by simp
    with 1 have "P r" by blast
    with newline show ?thesis by (auto intro: assms(2))
  next
    case (punct t c p r)
    then have "length r < length s" by simp
    with 1 have "P r" by blast
    with punct show ?thesis by (auto intro: assms(3))
  qed
qed

lemma concat_sent_end_split: "concat (sent_end_split s) = s"
proof (induction s rule: sent_end_split_induct)
  case (plain s)
  then show ?case by (simp add: sent_end_split_plain)
next
  case (newline t r)
  then show ?case by (simp add: sent_end_split_newline)
next
  case (punct t c p r)
  then show ?case by (simp add: sent_end_split_punct)
qed

lemma length_sent_end_split_odd: "length (sent_end_split s) mod 2 = 1"
proof (induction s rule: sent_end_split_induct)
  case (plain s)
  then show ?case by (simp add: sent_end_split_plain)
next
  case (newline t r)
  then show ?case by (simp add: sent_end_split_newline)
next
  case (punct t c p r)
  then show ?case by (simp add: sent_end_split_punct)
qed


lemma sent_end_split_not_Nil: "sent_end_split s \<noteq> []"
  using length_sent_end_split_odd [of s] by auto

lemma last_sent_end_split_no_delim: "\<forall>c\<in>set (last (sent_end_split s)). \<not> is_delim c"
proof (induction s rule: sent_end_split_induct)
  case (plain s)
  then show ?case by (simp add: sent_end_split_plain)
next
  case (newline t r)
  then show ?case by (simp add: sent_end_split_newline sent_end_split_not_Nil)
next
  case (punct t c p r)
  then show ?case by (simp add: sent_end_split_punct sent_end_split_not_Nil)
qed

lemma chunk_loop_pieces:
  "chunk_loop parts = filter (\<lambda>c. c \<noteq> []) (map strip (pieces parts))"
  by (induction parts rule: chunk_loop.induct) (simp_all add: Let_def)

lemma concat_pieces:
  "length parts mod 2 = 1 \<Longrightarrow> concat (pieces parts) @ last parts = concat parts"
proof (induction parts rule: pieces.induct)
  case (1 text_part ender rest)
  then have "length rest mod 2 = 1" by simp
  moreover from this have "rest \<noteq> []" by auto
  ultimately show ?case using 1 by simp
qed simp_all

section \<open>Facts about \<open>split_into_speakable_chunks\<close>\<close>

lemma split_eq:
  "split_into_speakable_chunks s = (chunk_loop (sent_end_split s), last (sent_end_split s))"
  by (simp add: split_into_speakable_chunks_def Let_def length_sent_end_split_odd)

lemma split_rejoins_parts:
  "concat (pieces (sent_end_split B)) @ last (sent_end_split B) = B"
  using concat_pieces [OF length_sent_end_split_odd, of B] by (simp add: concat_sent_end_split)

lemma split_plain:
  "\<forall>c\<in>set s. \<not> is_delim c \<Longrightarrow> split_into_speakable_chunks s = ([], s)"
  by (simp add: split_eq sent_end_split_plain)

lemma split_newline:
  assumes "\<forall>c\<in>set t. \<not> is_delim c"
  shows "split_into_speakable_chunks (t @ newline # r) =
           ((if strip t \<noteq> [] then [strip t] else []) @ fst (split_into_speakable_chunks r),
            snd (split_into_speakable_chunks r))"
proof -
  have "strip (t @ [newline]) = strip t"
    by (rule strip_snoc_space) (rule is_space_newline)
  with assms show ?thesis
    by (simp add: split_eq sent_end_split_newline sent_end_split_not_Nil)
qed

lemma split_punct:
  assumes "\<forall>c\<in>set t. \<not> is_delim c" and "is_punct c" and "\<forall>x\<in>set p. is_punct x"
    and "r = [] \<or> \<not> is_punct (hd r)"
  shows "split_into_speakable_chunks (t @ c # p @ r) =
           (dropWhile is_space (t @ c # p) # fst (split_into_speakable_chunks r),
            snd (split_into_speakable_chunks r))"
proof -
  from assms(2,3) have "is_punct (last (t @ c # p))" by simp
  then have "\<not> is_space (last (t @ c # p))" by (rule is_punct_not_space)
  then have s: "strip (t @ c # p) = dropWhile is_space (t @ c # p)"
    by (intro strip_last_nonspace) simp_all
  have "dropWhile is_space (t @ c # p) \<noteq> []"
    using assms(2) is_punct_not_space [of c] by (auto simp: dropWhile_eq_Nil_conv)
  with s assms show ?thesis
    by (simp add: split_eq sent_end_split_punct sent_end_split_not_Nil)
qed

lemma split_ends_on_delim:
  assumes "B \<noteq> []" and "is_delim (last B)"
  shows "last (sent_end_split B) = [] \<and> pieces (sent_end_split B) \<noteq> []"
  using assms
proof (induction B rule: sent_end_split_induct)
  case (plain s)
  then show ?case by auto
next
  case (newline t r)
  show ?case
  proof (cases "r = []")
    case True
    with newline(1) show ?thesis by (simp add: sent_end_split_newline sent_end_split_plain)
  next
    case False
    with newline show ?thesis by (simp add: sent_end_split_newline sent_end_split_not_Nil)
  qed
next
  case (punct t c p r)
  show ?case
  proof (cases "r = []")
    case True
    with punct(1-4) show ?thesis
      using sent_end_split_punct [of t c p "[]"] by (simp add: sent_end_split_plain)
  next
    case False
    with punct show ?thesis by (simp add: sent_end_split_punct sent_end_split_not_Nil)
  qed
qed

lemma filter_concat_strip:
  "filter (\<lambda>c. \<not> is_space c) (concat (filter (\<lambda>c. c \<noteq> []) (map strip ps))) =
   filter (\<lambda>c. \<not> is_space c) (concat ps)"
proof (induction ps)
  case Nil
  show ?case by simp
next
  case (Cons a ps)
  have a: "filter (\<lambda>c. \<not> is_space c) (strip a) = filter (\<lambda>c. \<not> is_space c) a"
    by (rule filter_strip)
  show ?case
  proof (cases "strip a = []")
    case True
    with a have "filter (\<lambda>c. \<not> is_space c) a = []" by simp
    with True Cons show ?thesis by simp
  next
    case False
    with a Cons show ?thesis by simp
  qed
qed

lemma at_boundary_newline:
  assumes "\<forall>x\<in>set w. is_space x"
  shows "at_boundary c (w @ newline # r)"
proof -
  from assms have "takeWhile is_space (w @ newline # r) = w @ newline # takeWhile is_space r"
    by (simp add: takeWhile_append2 is_space_newline)
  then show ?thesis by (simp add: at_boundary_def)
qed

lemma chunk_in_buffer:
  "\<forall>c\<in>set (fst (split_into_speakable_chunks B)).
     c \<noteq> [] \<and> (\<exists>pre post. B = pre @ c @ post \<and> at_boundary c post)"
proof (induction B rule: sent_end_split_induct)
  case (plain s)
  then show ?case by (simp add: split_plain)
next
  case (newline t r)
  have eq: "fst (split_into_speakable_chunks (t @ newline # r)) =
      (if strip t \<noteq> [] then [strip t] else []) @ fst (split_into_speakable_chunks r)"
    using newline(1) by (simp add: split_newline)
  show ?case
  proof
    fix c
    assume "c \<in> set (fst (split_into_speakable_chunks (t @ newline # r)))"
    then consider
        (here) "c = strip t" "strip t \<noteq> []"
      | (later) "c \<in> set (fst (split_into_speakable_chunks r))"
      unfolding eq by (auto split: if_splits)
    then show "c \<noteq> [] \<and> (\<exists>pre post. t @ newline # r = pre @ c @ post \<and> at_boundary c post)"
    proof cases
      case here
      obtain l w where t: "t = l @ strip t @ w" and w: "\<forall>x\<in>set w. is_space x"
        using strip_decomp [of t] by blast
      from t have "t @ newline # r = l @ strip t @ (w @ newline # r)" by (metis append.assoc)
      with here have b: "t @ newline # r = l @ c @ (w @ newline # r)" by simp
      show ?thesis
      proof (intro conjI exI)
        show "c \<noteq> []" using here by simp
        show "t @ newline # r = l @ c @ (w @ newline # r)" by (rule b)
        show "at_boundary c (w @ newline # r)" using w by (rule at_boundary_newline)
      qed
    next
      case later
      with newline(2) have "c \<noteq> [] \<and> (\<exists>pre post. r = pre @ c @ post \<and> at_boundary c post)"
        by (rule bspec)
      then obtain pre post where c: "c \<noteq> []" and r: "r = pre @ c @ post"
        and e: "at_boundary c post"
        by blast
      from r have b: "t @ newline # r = (t @ newline # pre) @ c @ post" by simp
      show ?thesis
      proof (intro conjI exI)
        show "c \<noteq> []" by (rule c)
        show "t @ newline # r = (t @ newline # pre) @ c @ post" by (rule b)
        show "at_boundary c post" by (rule e)
      qed
    qed
  qed
next
  case (punct t c0 p r)
  let ?seg = "t @ c0 # p"
  have eq: "fst (split_into_speakable_chunks (t @ c0 # p @ r)) =
      dropWhile is_space ?seg # fst (split_into_speakable_chunks r)"
    using punct(1-4) by (simp add: split_punct)
  show ?case
  proof
    fix c
    assume "c \<in> set (fst (split_into_speakable_chunks (t @ c0 # p @ r)))"
    then consider
        (here) "c = dropWhile is_space ?seg"
      | (later) "c \<in> set (fst (split_into_speakable_chunks r))"
      unfolding eq by auto
    then show "c \<noteq> [] \<and> (\<exists>pre post. t @ c0 # p @ r = pre @ c @ post \<and> at_boundary c post)"
    proof cases
      case here
      from punct(2,3) have lp: "is_punct (last ?seg)" by simp
      have ne: "c \<noteq> []"
        using here punct(2) is_punct_not_space [of c0] by (auto simp: dropWhile_eq_Nil_conv)
      have seg: "?seg = takeWhile is_space ?seg @ c" using here by simp
      from ne seg have "last c = last ?seg" by (metis last_appendR)
      with lp have l: "is_punct (last c)" by simp
      from seg have b: "t @ c0 # p @ r = takeWhile is_space ?seg @ c @ r"
        by (metis append.assoc append_Cons)
      show ?thesis
      proof (intro conjI exI)
        show "c \<noteq> []" by (rule ne)
        show "t @ c0 # p @ r = takeWhile is_space ?seg @ c @ r" by (rule b)
        show "at_boundary c r" using l by (simp add: at_boundary_def)
      qed
    next
      case later
      with punct(5) have "c \<noteq> [] \<and> (\<exists>pre post. r = pre @ c @ post \<and> at_boundary c post)"
        by (rule bspec)
      then obtain pre post where c: "c \<noteq> []" and r: "r = pre @ c @ post"
        and e: "at_boundary c post"
        by blast
      from r have b: "t @ c0 # p @ r = (t @ c0 # p @ pre) @ c @ post" by simp
      show ?thesis
      proof (intro conjI exI)
        show "c \<noteq> []" by (rule c)
        show "t @ c0 # p @ r = (t @ c0 # p @ pre) @ c @ post" by (rule b)
        show "at_boundary c post" by (rule e)
      qed
    qed
  qed
qed

section \<open>The chunker: the claims\<close>

text \<open>
  C1. Rejoining the result of \<open>split_into_speakable_chunks\<close> gives the buffer back, up to
  the trim of each chunk. The pieces (each text with the delimiter that ends it, as cut
  from the buffer) followed by the remainder are the buffer, character for character; the
  chunks are these pieces, each trimmed by \<open>strip\<close>, those that trim to nothing left
  out; so the chunks followed by the remainder are the buffer once whitespace is
  disregarded.
\<close>

theorem split_rejoins_buffer:
  "concat (pieces (sent_end_split B)) @ snd (split_into_speakable_chunks B) = B \<and>
   fst (split_into_speakable_chunks B) =
     filter (\<lambda>c. c \<noteq> []) (map strip (pieces (sent_end_split B))) \<and>
   filter (\<lambda>c. \<not> is_space c)
       (concat (fst (split_into_speakable_chunks B)) @ snd (split_into_speakable_chunks B)) =
     filter (\<lambda>c. \<not> is_space c) B"
proof -
  let ?parts = "sent_end_split B"
  have a: "concat (pieces ?parts) @ last ?parts = B"
    by (rule split_rejoins_parts)
  have b: "fst (split_into_speakable_chunks B) =
      filter (\<lambda>c. c \<noteq> []) (map strip (pieces ?parts))"
    by (simp add: split_eq chunk_loop_pieces)
  have "filter (\<lambda>c. \<not> is_space c) (concat (fst (split_into_speakable_chunks B)) @ last ?parts) =
      filter (\<lambda>c. \<not> is_space c) (concat (pieces ?parts) @ last ?parts)"
    unfolding b by (simp add: filter_concat_strip)
  with a b show ?thesis by (simp add: split_eq)
qed

theorem split_rejoins_buffer_witness:
  "concat (pieces (sent_end_split ''Hello.  World! ok'')) @
     snd (split_into_speakable_chunks ''Hello.  World! ok'') = ''Hello.  World! ok'' \<and>
   fst (split_into_speakable_chunks ''Hello.  World! ok'') = [''Hello.'', ''World!'']"
proof -
  have e: "filter (\<lambda>c. c \<noteq> []) (map strip (pieces (sent_end_split ''Hello.  World! ok''))) =
      [''Hello.'', ''World!'']"
    by code_simp
  from split_rejoins_buffer [of "''Hello.  World! ok''"] e show ?thesis by simp
qed

text \<open>
  C3, as the code has it. Every chunk is a nonempty piece of the buffer that ends on one
  of \<open>.\<close>, \<open>!\<close>, \<open>?\<close>, or that stands in the buffer before a newline with only
  whitespace in between: the chunk is trimmed, so a newline that ended it is not its
  last character.
\<close>

theorem chunk_ends_at_boundary:
  "c \<in> set (fst (split_into_speakable_chunks B)) \<Longrightarrow>
     c \<noteq> [] \<and>
     (\<exists>pre post. B = pre @ c @ post \<and>
        (is_punct (last c) \<or> newline \<in> set (takeWhile is_space post)))"
  using chunk_in_buffer [of B] by (simp add: at_boundary_def)

theorem chunk_ends_at_boundary_witness:
  "''Hello'' \<in> set (fst (split_into_speakable_chunks (''Hi! Hello '' @ [newline]))) \<and>
   (\<exists>pre post. ''Hi! Hello '' @ [newline] = pre @ ''Hello'' @ post \<and>
      (is_punct (last ''Hello'') \<or> newline \<in> set (takeWhile is_space post)))"
proof -
  have h: "''Hello'' \<in> set (fst (split_into_speakable_chunks (''Hi! Hello '' @ [newline])))"
    by code_simp
  from chunk_ends_at_boundary [OF h] h show ?thesis by simp
qed

text \<open>
  The claim as the specification states it fails: the chunk of the buffer \<open>Hello\n\<close> is
  \<open>Hello\<close>, whose last character is none of \<open>.\<close>, \<open>!\<close>, \<open>?\<close> and newline.
\<close>

theorem chunk_last_char_counterexample:
  "fst (split_into_speakable_chunks (''Hello'' @ [newline])) = [''Hello''] \<and>
   \<not> is_delim (last ''Hello'')"
  by code_simp

text \<open>
  C4, as the code has it. The empty buffer gives no chunk and the empty remainder. A
  buffer with no delimiter gives no chunk and is the remainder. A buffer that ends on a
  delimiter has the empty remainder; its last piece, trimmed, is the last chunk, unless
  the piece is whitespace only (a newline after nothing but whitespace), and then there is
  no chunk for it. \<open>Hello. World\<close> gives the chunk \<open>Hello.\<close> and the remainder
  \<open> World\<close>.
\<close>

theorem split_boundary_cases:
  "split_into_speakable_chunks [] = ([], []) \<and>
   ((\<forall>c\<in>set B1. \<not> is_delim c) \<longrightarrow> split_into_speakable_chunks B1 = ([], B1)) \<and>
   (B2 \<noteq> [] \<and> is_delim (last B2) \<longrightarrow>
      snd (split_into_speakable_chunks B2) = [] \<and>
      pieces (sent_end_split B2) \<noteq> [] \<and>
      suffix (last (pieces (sent_end_split B2))) B2 \<and>
      (if strip (last (pieces (sent_end_split B2))) = []
       then fst (split_into_speakable_chunks B2) =
              filter (\<lambda>c. c \<noteq> []) (map strip (butlast (pieces (sent_end_split B2))))
       else fst (split_into_speakable_chunks B2) \<noteq> [] \<and>
            last (fst (split_into_speakable_chunks B2)) =
              strip (last (pieces (sent_end_split B2))))) \<and>
   split_into_speakable_chunks ''Hello. World'' = ([''Hello.''], '' World'')"
proof (intro conjI impI)
  show "split_into_speakable_chunks [] = ([], [])"
    by (simp add: split_plain)
  show "split_into_speakable_chunks ''Hello. World'' = ([''Hello.''], '' World'')"
    by code_simp
next
  assume "\<forall>c\<in>set B1. \<not> is_delim c"
  then show "split_into_speakable_chunks B1 = ([], B1)" by (rule split_plain)
next
  let ?ps = "pieces (sent_end_split B2)"
  assume "B2 \<noteq> [] \<and> is_delim (last B2)"
  then have e: "last (sent_end_split B2) = []" and ne: "?ps \<noteq> []"
    using split_ends_on_delim [of B2] by simp_all
  from e show r: "snd (split_into_speakable_chunks B2) = []" by (simp add: split_eq)
  from ne show "?ps \<noteq> []" .
  from ne have ps: "?ps = butlast ?ps @ [last ?ps]" by simp
  have "concat ?ps @ snd (split_into_speakable_chunks B2) = B2"
    using split_rejoins_parts [of B2] by (simp add: split_eq)
  with r have "concat ?ps = B2" by simp
  then have "concat (butlast ?ps @ [last ?ps]) = B2" using ps by simp
  then have "B2 = concat (butlast ?ps) @ last ?ps" by simp
  then show "suffix (last ?ps) B2" by (rule suffixI)
  have "fst (split_into_speakable_chunks B2) =
      filter (\<lambda>c. c \<noteq> []) (map strip (butlast ?ps @ [last ?ps]))"
    using ps by (simp add: split_eq chunk_loop_pieces)
  then show "if strip (last ?ps) = []
       then fst (split_into_speakable_chunks B2) =
              filter (\<lambda>c. c \<noteq> []) (map strip (butlast ?ps))
       else fst (split_into_speakable_chunks B2) \<noteq> [] \<and>
            last (fst (split_into_speakable_chunks B2)) = strip (last ?ps)"
    by simp
qed

theorem split_boundary_cases_witness:
  "split_into_speakable_chunks ''Hello world'' = ([], ''Hello world'') \<and>
   is_delim (last ''Hello. World!'') \<and>
   snd (split_into_speakable_chunks ''Hello. World!'') = [] \<and>
   last (fst (split_into_speakable_chunks ''Hello. World!'')) = ''World!''"
proof -
  have h1: "\<forall>c\<in>set ''Hello world''. \<not> is_delim c" by code_simp
  have h2: "''Hello. World!'' \<noteq> [] \<and> is_delim (last ''Hello. World!'')" by code_simp
  have e: "strip (last (pieces (sent_end_split ''Hello. World!''))) = ''World!''" by code_simp
  from split_boundary_cases [of "''Hello world''" "''Hello. World!''"] h1 h2 e
  show ?thesis by simp
qed

text \<open>
  The claim as the specification states it fails: the buffer of one newline ends on a
  delimiter and no chunk is emitted for its last piece.
\<close>

theorem split_ends_on_delim_counterexample:
  "is_delim (last [newline]) \<and> split_into_speakable_chunks [newline] = ([], [])"
  by code_simp

text \<open>
  C10. The remainder is the end of the buffer, unchanged, and has none of \<open>.\<close>, \<open>!\<close>,
  \<open>?\<close> and newline in it.
\<close>

theorem remainder_is_delimiter_free_suffix:
  "suffix (snd (split_into_speakable_chunks B)) B \<and>
   (\<forall>c\<in>set (snd (split_into_speakable_chunks B)). \<not> is_delim c)"
proof
  have "B = concat (pieces (sent_end_split B)) @ snd (split_into_speakable_chunks B)"
    using split_rejoins_parts [of B] by (simp add: split_eq)
  then show "suffix (snd (split_into_speakable_chunks B)) B" by (rule suffixI)
  show "\<forall>c\<in>set (snd (split_into_speakable_chunks B)). \<not> is_delim c"
    using last_sent_end_split_no_delim [of B] by (simp add: split_eq)
qed

theorem remainder_is_delimiter_free_suffix_witness:
  "snd (split_into_speakable_chunks ''Hello. World'') = '' World'' \<and>
   suffix '' World'' ''Hello. World'' \<and>
   list_all (\<lambda>c. \<not> is_delim c) '' World''"
proof -
  have r: "snd (split_into_speakable_chunks ''Hello. World'') = '' World''" by code_simp
  from remainder_is_delimiter_free_suffix [of "''Hello. World''"] r
  show ?thesis by (simp add: list_all_iff)
qed

section \<open>Splitting a buffer that grows\<close>

lemma split_Nil: "split_into_speakable_chunks [] = ([], [])"
  by (simp add: split_plain)

lemma split_append_clean:
  assumes "pre = [] \<or> \<not> is_punct (last pre) \<or> t = [] \<or> \<not> is_punct (hd t)"
  shows "split_into_speakable_chunks (pre @ t) =
           (fst (split_into_speakable_chunks pre) @
              fst (split_into_speakable_chunks (snd (split_into_speakable_chunks pre) @ t)),
            snd (split_into_speakable_chunks (snd (split_into_speakable_chunks pre) @ t)))"
  using assms
proof (induction pre rule: sent_end_split_induct)
  case (plain s)
  then show ?case by (simp add: split_plain)
next
  case (newline t0 r)
  from newline.prems have "r = [] \<or> \<not> is_punct (last r) \<or> t = [] \<or> \<not> is_punct (hd t)"
    by (cases "r = []") auto
  then have ih: "split_into_speakable_chunks (r @ t) =
           (fst (split_into_speakable_chunks r) @
              fst (split_into_speakable_chunks (snd (split_into_speakable_chunks r) @ t)),
            snd (split_into_speakable_chunks (snd (split_into_speakable_chunks r) @ t)))"
    by (rule newline.IH)
  have a: "split_into_speakable_chunks (t0 @ newline # (r @ t)) =
      ((if strip t0 \<noteq> [] then [strip t0] else []) @ fst (split_into_speakable_chunks (r @ t)),
       snd (split_into_speakable_chunks (r @ t)))"
    using newline(1) by (rule split_newline)
  have b: "split_into_speakable_chunks (t0 @ newline # r) =
      ((if strip t0 \<noteq> [] then [strip t0] else []) @ fst (split_into_speakable_chunks r),
       snd (split_into_speakable_chunks r))"
    using newline(1) by (rule split_newline)
  have "(t0 @ newline # r) @ t = t0 @ newline # (r @ t)" by simp
  then show ?case unfolding b by (simp only: a ih fst_conv snd_conv append_assoc)
next
  case (punct t0 c p r)
  let ?D = "dropWhile is_space (t0 @ c # p)"
  have b: "split_into_speakable_chunks (t0 @ c # p @ r) =
      (?D # fst (split_into_speakable_chunks r), snd (split_into_speakable_chunks r))"
    using punct(1-4) by (rule split_punct)
  show ?case
  proof (cases "r = []")
    case True
    from punct(2,3) have "is_punct (last (t0 @ c # p))" by simp
    with punct.prems True have t: "t = [] \<or> \<not> is_punct (hd t)" by simp
    have a: "split_into_speakable_chunks (t0 @ c # p @ t) =
        (?D # fst (split_into_speakable_chunks t), snd (split_into_speakable_chunks t))"
      using punct(1-3) t by (rule split_punct)
    from True show ?thesis unfolding b by (simp add: a split_Nil)
  next
    case False
    with punct(4) have h: "r @ t = [] \<or> \<not> is_punct (hd (r @ t))" by simp
    have a: "split_into_speakable_chunks (t0 @ c # p @ (r @ t)) =
        (?D # fst (split_into_speakable_chunks (r @ t)), snd (split_into_speakable_chunks (r @ t)))"
      using punct(1-3) h by (rule split_punct)
    from punct.prems False
    have "r = [] \<or> \<not> is_punct (last r) \<or> t = [] \<or> \<not> is_punct (hd t)" by auto
    then have ih: "split_into_speakable_chunks (r @ t) =
           (fst (split_into_speakable_chunks r) @
              fst (split_into_speakable_chunks (snd (split_into_speakable_chunks r) @ t)),
            snd (split_into_speakable_chunks (snd (split_into_speakable_chunks r) @ t)))"
      by (rule punct.IH)
    have "(t0 @ c # p @ r) @ t = t0 @ c # p @ (r @ t)" by simp
    then show ?thesis unfolding b by (simp only: a ih fst_conv snd_conv append_Cons)
  qed
qed

lemma split_punct_run:
  assumes "\<forall>c\<in>set t0. \<not> is_delim c" and "is_punct c" and "\<forall>x\<in>set p. is_punct x"
  shows "concat (fst (split_into_speakable_chunks (t0 @ c # p @ t))) =
           dropWhile is_space (t0 @ c # p) @ concat (fst (split_into_speakable_chunks t)) \<and>
         snd (split_into_speakable_chunks (t0 @ c # p @ t)) = snd (split_into_speakable_chunks t)"
proof (cases "t = [] \<or> \<not> is_punct (hd t)")
  case True
  with assms show ?thesis by (simp add: split_punct)
next
  case False
  let ?q = "takeWhile is_punct t" and ?r = "dropWhile is_punct t"
  from False obtain y ys where t: "t = y # ys" and y: "is_punct y" by (cases t) auto
  then have q: "?q = y # takeWhile is_punct ys" by simp
  have pq: "\<forall>x\<in>set (p @ takeWhile is_punct ys). is_punct x"
    using assms(3) by (auto dest: set_takeWhileD)
  have qq: "\<forall>x\<in>set (takeWhile is_punct ys). is_punct x" by (auto dest: set_takeWhileD)
  have r: "?r = [] \<or> \<not> is_punct (hd ?r)" using hd_dropWhile [of is_punct t] by blast
  have nd: "\<forall>c\<in>set ([]::string). \<not> is_delim c" by simp
  have "t = ?q @ ?r" by simp
  then have t': "t = [] @ y # takeWhile is_punct ys @ ?r" using q by simp
  have "split_into_speakable_chunks ([] @ y # takeWhile is_punct ys @ ?r) =
      (dropWhile is_space ([] @ y # takeWhile is_punct ys) # fst (split_into_speakable_chunks ?r),
       snd (split_into_speakable_chunks ?r))"
    using nd y qq r by (rule split_punct)
  with t' have st: "split_into_speakable_chunks t =
      (dropWhile is_space (y # takeWhile is_punct ys) # fst (split_into_speakable_chunks ?r),
       snd (split_into_speakable_chunks ?r))"
    by simp
  have dq: "dropWhile is_space (y # takeWhile is_punct ys) = ?q"
    using y is_punct_not_space [of y] q by simp
  have "t0 @ c # p @ t = t0 @ c # (p @ y # takeWhile is_punct ys) @ ?r"
    using t' by simp
  moreover have "\<forall>x\<in>set (p @ y # takeWhile is_punct ys). is_punct x"
    using assms(3) y qq by auto
  ultimately have sw: "split_into_speakable_chunks (t0 @ c # p @ t) =
      (dropWhile is_space (t0 @ c # (p @ y # takeWhile is_punct ys)) #
         fst (split_into_speakable_chunks ?r),
       snd (split_into_speakable_chunks ?r))"
    using split_punct [OF assms(1,2) _ r, of "p @ y # takeWhile is_punct ys"] by simp
  have "\<not> is_space c" using assms(2) by (rule is_punct_not_space)
  then have "dropWhile is_space ((t0 @ c # p) @ ?q) = dropWhile is_space (t0 @ c # p) @ ?q"
    by (intro dropWhile_append1 [of c]) simp_all
  then have "dropWhile is_space (t0 @ c # (p @ y # takeWhile is_punct ys)) =
      dropWhile is_space (t0 @ c # p) @ ?q"
    using q by simp
  with sw st dq show ?thesis by simp
qed

lemma split_append:
  "concat (fst (split_into_speakable_chunks (pre @ t))) =
     concat (fst (split_into_speakable_chunks pre)) @
       concat (fst (split_into_speakable_chunks (snd (split_into_speakable_chunks pre) @ t))) \<and>
   snd (split_into_speakable_chunks (pre @ t)) =
     snd (split_into_speakable_chunks (snd (split_into_speakable_chunks pre) @ t))"
proof (induction pre rule: sent_end_split_induct)
  case (plain s)
  then show ?case by (simp add: split_plain)
next
  case (newline t0 r)
  have a: "split_into_speakable_chunks (t0 @ newline # (r @ t)) =
      ((if strip t0 \<noteq> [] then [strip t0] else []) @ fst (split_into_speakable_chunks (r @ t)),
       snd (split_into_speakable_chunks (r @ t)))"
    using newline(1) by (rule split_newline)
  have b: "split_into_speakable_chunks (t0 @ newline # r) =
      ((if strip t0 \<noteq> [] then [strip t0] else []) @ fst (split_into_speakable_chunks r),
       snd (split_into_speakable_chunks r))"
    using newline(1) by (rule split_newline)
  have "(t0 @ newline # r) @ t = t0 @ newline # (r @ t)" by simp
  then show ?case unfolding b using newline.IH by (simp add: a)
next
  case (punct t0 c p r)
  let ?D = "dropWhile is_space (t0 @ c # p)"
  have b: "split_into_speakable_chunks (t0 @ c # p @ r) =
      (?D # fst (split_into_speakable_chunks r), snd (split_into_speakable_chunks r))"
    using punct(1-4) by (rule split_punct)
  show ?case
  proof (cases "r = []")
    case True
    have "concat (fst (split_into_speakable_chunks (t0 @ c # p @ t))) =
           ?D @ concat (fst (split_into_speakable_chunks t)) \<and>
         snd (split_into_speakable_chunks (t0 @ c # p @ t)) = snd (split_into_speakable_chunks t)"
      using punct(1-3) by (rule split_punct_run)
    with True show ?thesis unfolding b by (simp add: split_Nil)
  next
    case False
    with punct(4) have h: "r @ t = [] \<or> \<not> is_punct (hd (r @ t))" by simp
    have a: "split_into_speakable_chunks (t0 @ c # p @ (r @ t)) =
        (?D # fst (split_into_speakable_chunks (r @ t)), snd (split_into_speakable_chunks (r @ t)))"
      using punct(1-3) h by (rule split_punct)
    have "(t0 @ c # p @ r) @ t = t0 @ c # p @ (r @ t)" by simp
    then show ?thesis unfolding b using punct.IH by (simp add: a)
  qed
qed

lemma tts_q_put_all: "tts_q (tts_put_all cs st) = tts_q st @ map Some cs"
  by (induction cs arbitrary: st) (simp_all add: tts_put_def)

lemma tts_put_all_append: "tts_put_all (a @ b) st = tts_put_all b (tts_put_all a st)"
  by (induction a arbitrary: st) simp_all

lemma stream_loop_feed:
  "stream_loop full buffer st (map Some tokens) =
     (full @ concat tokens, snd (feed buffer tokens), tts_put_all (fst (feed buffer tokens)) st)"
  by (induction tokens arbitrary: full buffer st)
     (simp_all add: split_beta tts_put_all_append)

lemma feed_concat:
  assumes "buffer = snd (split_into_speakable_chunks pre)"
  shows "concat (fst (split_into_speakable_chunks (pre @ concat tokens))) =
           concat (fst (split_into_speakable_chunks pre)) @ concat (fst (feed buffer tokens)) \<and>
         snd (split_into_speakable_chunks (pre @ concat tokens)) = snd (feed buffer tokens)"
  using assms
proof (induction tokens arbitrary: pre buffer)
  case Nil
  then show ?case by simp
next
  case (Cons token tokens)
  show ?case
  proof (cases "token = []")
    case True
    with Cons show ?thesis by simp
  next
    case False
    let ?s = "split_into_speakable_chunks (buffer @ token)"
    have a: "concat (fst (split_into_speakable_chunks (pre @ token))) =
        concat (fst (split_into_speakable_chunks pre)) @ concat (fst ?s)"
      and b: "snd (split_into_speakable_chunks (pre @ token)) = snd ?s"
      using split_append [of pre token] Cons.prems by simp_all
    from b have "snd ?s = snd (split_into_speakable_chunks (pre @ token))" by simp
    then have ih: "concat (fst (split_into_speakable_chunks ((pre @ token) @ concat tokens))) =
           concat (fst (split_into_speakable_chunks (pre @ token))) @
             concat (fst (feed (snd ?s) tokens)) \<and>
         snd (split_into_speakable_chunks ((pre @ token) @ concat tokens)) =
           snd (feed (snd ?s) tokens)"
      by (rule Cons.IH)
    from False have f: "feed buffer (token # tokens) =
        (fst ?s @ fst (feed (snd ?s) tokens), snd (feed (snd ?s) tokens))"
      by (simp add: split_beta)
    from ih a show ?thesis unfolding f by simp
  qed
qed

lemma feed_clean:
  assumes "buffer = snd (split_into_speakable_chunks pre)"
    and "clean_cuts (pre \<noteq> [] \<and> is_punct (last pre)) tokens"
  shows "fst (split_into_speakable_chunks (pre @ concat tokens)) =
           fst (split_into_speakable_chunks pre) @ fst (feed buffer tokens)"
  using assms
proof (induction tokens arbitrary: pre buffer)
  case Nil
  then show ?case by simp
next
  case (Cons token tokens)
  show ?case
  proof (cases "token = []")
    case True
    with Cons show ?thesis by simp
  next
    case False
    let ?s = "split_into_speakable_chunks (buffer @ token)"
    from Cons.prems(2) False
    have c: "pre = [] \<or> \<not> is_punct (last pre) \<or> token = [] \<or> \<not> is_punct (hd token)"
      and r: "clean_cuts (is_punct (last token)) tokens"
      by (auto split: if_splits)
    have a: "split_into_speakable_chunks (pre @ token) =
        (fst (split_into_speakable_chunks pre) @ fst ?s, snd ?s)"
      using split_append_clean [OF c] Cons.prems(1) by simp
    then have b: "snd ?s = snd (split_into_speakable_chunks (pre @ token))" by simp
    from r False have "clean_cuts (pre @ token \<noteq> [] \<and> is_punct (last (pre @ token))) tokens"
      by simp
    with b have ih: "fst (split_into_speakable_chunks ((pre @ token) @ concat tokens)) =
        fst (split_into_speakable_chunks (pre @ token)) @ fst (feed (snd ?s) tokens)"
      by (rule Cons.IH)
    from False have f: "feed buffer (token # tokens) =
        (fst ?s @ fst (feed (snd ?s) tokens), snd (feed (snd ?s) tokens))"
      by (simp add: split_beta)
    from ih a show ?thesis unfolding f by simp
  qed
qed

text \<open>
  C2, as the code has it. Feeding the tokens of a buffer one at a time, each call of
  \<open>split_into_speakable_chunks\<close> on the remainder of the call before with the new token,
  ends with the remainder of one call on the whole buffer, and the chunks put on the
  queue, joined, are the chunks of that one call, joined: no text is lost or emitted
  twice. The chunks are the same sequence when no token starts with one of \<open>.\<close>, \<open>!\<close>,
  \<open>?\<close> right after a token that ended with one.
\<close>

theorem incremental_feed_matches_batch:
  "(case stream_loop [] [] st0 (map Some tokens) of
      (full, buffer, st) \<Rightarrow>
        full = concat tokens \<and>
        buffer = snd (split_into_speakable_chunks (concat tokens)) \<and>
        (\<exists>emitted.
           tts_q st = tts_q st0 @ map Some emitted \<and>
           concat emitted = concat (fst (split_into_speakable_chunks (concat tokens))) \<and>
           (clean_cuts False tokens \<longrightarrow>
              emitted = fst (split_into_speakable_chunks (concat tokens)))))"
proof -
  have b: "[] = snd (split_into_speakable_chunks [])" by (simp add: split_Nil)
  have c: "concat (fst (split_into_speakable_chunks (concat tokens))) =
      concat (fst (feed [] tokens))"
    and r: "snd (split_into_speakable_chunks (concat tokens)) = snd (feed [] tokens)"
    using feed_concat [OF b, of tokens] by (simp_all add: split_Nil)
  have e: "clean_cuts False tokens \<longrightarrow>
      fst (feed [] tokens) = fst (split_into_speakable_chunks (concat tokens))"
    using feed_clean [OF b, of tokens] by (simp add: split_Nil)
  have q: "tts_q (tts_put_all (fst (feed [] tokens)) st0) =
      tts_q st0 @ map Some (fst (feed [] tokens))"
    by (rule tts_q_put_all)
  from c r e q show ?thesis
    unfolding stream_loop_feed by (simp only: prod.case append_Nil) blast
qed

theorem incremental_feed_matches_batch_witness:
  "clean_cuts False [''Hel'', ''lo. Wor'', ''ld!'', '' ok''] \<and>
   (case stream_loop [] [] (init_state :: unit stream_state)
           (map Some [''Hel'', ''lo. Wor'', ''ld!'', '' ok'']) of
      (full, buffer, st) \<Rightarrow>
        full = ''Hello. World! ok'' \<and> buffer = '' ok'' \<and>
        tts_q st = [Some ''Hello.'', Some ''World!''])"
proof -
  have h: "clean_cuts False [''Hel'', ''lo. Wor'', ''ld!'', '' ok'']" by code_simp
  have e: "split_into_speakable_chunks (concat [''Hel'', ''lo. Wor'', ''ld!'', '' ok'']) =
      ([''Hello.'', ''World!''], '' ok'')"
    by code_simp
  from incremental_feed_matches_batch
         [where ?st0.0 = "init_state :: unit stream_state"
            and tokens = "[''Hel'', ''lo. Wor'', ''ld!'', '' ok'']"] h e
  show ?thesis by (auto simp: init_state_def split: prod.splits)
qed

text \<open>
  The claim as the specification states it fails: for the tokens \<open>Hi.\<close> and \<open>..\<close> the
  chunks emitted are \<open>Hi.\<close> and \<open>..\<close>, and one call on \<open>Hi...\<close> returns the one
  chunk \<open>Hi...\<close>.
\<close>

theorem incremental_feed_counterexample:
  "tts_q (snd (snd (stream_loop [] [] (init_state :: unit stream_state)
       [Some ''Hi.'', Some ''..'']))) = [Some ''Hi.'', Some ''..''] \<and>
   split_into_speakable_chunks (''Hi.'' @ ''..'') = ([''Hi...''], [])"
  by code_simp

section \<open>The workers and the chat loop: the claims\<close>

lemma until_sentinel_append:
  "None \<notin> set xs \<Longrightarrow> until_sentinel (xs @ ys) = map the xs @ until_sentinel ys"
  by (induction xs rule: until_sentinel.induct) simp_all

lemma until_sentinel_all: "None \<notin> set xs \<Longrightarrow> until_sentinel xs = map the xs"
  using until_sentinel_append [of xs "[]"] by simp

lemma pipeline_inv_init: "pipeline_inv pipeline init_state"
  by (simp add: pipeline_inv_def init_state_def)

lemma pipeline_inv_put:
  assumes "pipeline_inv pipeline st"
  shows "pipeline_inv pipeline (tts_put item st)"
proof -
  from assms obtain taken where t: "tts_puts st = taken @ tts_q st"
    and c: "if tts_running st
         then None \<notin> set taken \<and> tts_calls st = length taken \<and> player_running st \<and>
              None \<notin> set (audio_q st) \<and>
              (\<forall>more. synthesized pipeline 0 (map the taken @ more) =
                 synthesized pipeline 0 (map the taken) @
                   synthesized pipeline (length taken) more) \<and>
              played st @ until_sentinel (audio_q st) = synthesized pipeline 0 (map the taken)
         else (\<forall>more. synthesized pipeline 0 (until_sentinel (tts_puts st @ more)) =
                 played st @ (if player_running st then until_sentinel (audio_q st) else []))"
    unfolding pipeline_inv_def by blast
  show ?thesis
  proof (cases "tts_running st")
    case True
    with t c show ?thesis
      unfolding pipeline_inv_def tts_put_def by (intro exI [of _ taken]) simp
  next
    case False
    with c have f: "\<forall>more. synthesized pipeline 0 (until_sentinel (tts_puts st @ more)) =
        played st @ (if player_running st then until_sentinel (audio_q st) else [])"
      by simp
    have "\<forall>more. synthesized pipeline 0 (until_sentinel ((tts_puts st @ [item]) @ more)) =
        played st @ (if player_running st then until_sentinel (audio_q st) else [])"
    proof
      fix more
      from f have "synthesized pipeline 0 (until_sentinel (tts_puts st @ ([item] @ more))) =
          played st @ (if player_running st then until_sentinel (audio_q st) else [])"
        by (rule spec)
      then show "synthesized pipeline 0 (until_sentinel ((tts_puts st @ [item]) @ more)) =
          played st @ (if player_running st then until_sentinel (audio_q st) else [])"
        by simp
    qed
    with t False show ?thesis
      unfolding pipeline_inv_def tts_put_def by (intro exI [of _ taken]) simp
  qed
qed

lemma pipeline_inv_play:
  assumes "pipeline_inv pipeline st" and "player_running st" and "audio_q st \<noteq> []"
  shows "pipeline_inv pipeline (audio_player_step st)"
proof -
  from assms(1) obtain taken where t: "tts_puts st = taken @ tts_q st"
    and c: "if tts_running st
         then None \<notin> set taken \<and> tts_calls st = length taken \<and> player_running st \<and>
              None \<notin> set (audio_q st) \<and>
              (\<forall>more. synthesized pipeline 0 (map the taken @ more) =
                 synthesized pipeline 0 (map the taken) @
                   synthesized pipeline (length taken) more) \<and>
              played st @ until_sentinel (audio_q st) = synthesized pipeline 0 (map the taken)
         else (\<forall>more. synthesized pipeline 0 (until_sentinel (tts_puts st @ more)) =
                 played st @ (if player_running st then until_sentinel (audio_q st) else []))"
    unfolding pipeline_inv_def by blast
  from assms(3) obtain x rest where q: "audio_q st = x # rest" by (cases "audio_q st") auto
  show ?thesis
  proof (cases x)
    case None
    with q c have nr: "\<not> tts_running st" by auto
    with c assms(2) q None
    have "\<forall>more. synthesized pipeline 0 (until_sentinel (tts_puts st @ more)) = played st"
      by simp
    with t nr q None show ?thesis
      unfolding pipeline_inv_def audio_player_step_def by (intro exI [of _ taken]) simp
  next
    case (Some a)
    with t c q assms(2) show ?thesis
      unfolding pipeline_inv_def audio_player_step_def
      by (intro exI [of _ taken]) (simp split: if_splits)
  qed
qed

lemma pipeline_inv_synthesize:
  assumes "pipeline_inv pipeline st" and "tts_running st" and "tts_q st \<noteq> []"
  shows "pipeline_inv pipeline (tts_worker_step pipeline st)"
proof -
  from assms(1,2) obtain taken where t: "tts_puts st = taken @ tts_q st"
    and n: "None \<notin> set taken" and k: "tts_calls st = length taken"
    and p: "player_running st" and a: "None \<notin> set (audio_q st)"
    and s: "\<And>more. synthesized pipeline 0 (map the taken @ more) =
                 synthesized pipeline 0 (map the taken) @
                   synthesized pipeline (length taken) more"
    and e: "played st @ until_sentinel (audio_q st) = synthesized pipeline 0 (map the taken)"
    unfolding pipeline_inv_def by auto
  from assms(3) obtain x rest where q: "tts_q st = x # rest" by (cases "tts_q st") auto
  from a have ua: "\<And>ys. until_sentinel (audio_q st @ ys) = until_sentinel (audio_q st) @ until_sentinel ys"
    by (simp add: until_sentinel_append until_sentinel_all)
  show ?thesis
  proof (cases x)
    case None
    have "\<forall>more. synthesized pipeline 0 (until_sentinel (tts_puts st @ more)) =
        played st @ until_sentinel (audio_q st @ [None])"
    proof
      fix more
      have "until_sentinel (tts_puts st @ more) = map the taken"
        using n t q None by (simp add: until_sentinel_append)
      with e show "synthesized pipeline 0 (until_sentinel (tts_puts st @ more)) =
          played st @ until_sentinel (audio_q st @ [None])"
        by (simp add: ua)
    qed
    with t q None p show ?thesis
      unfolding pipeline_inv_def tts_worker_step_def
      by (intro exI [of _ "taken @ [None]"]) simp
  next
    case (Some chunk)
    show ?thesis
    proof (cases "pipeline (length taken) chunk")
      case (Inr audio)
      have one: "synthesized pipeline 0 (map the taken @ [chunk]) =
          synthesized pipeline 0 (map the taken) @ [audio]"
        using s [of "[chunk]"] Inr by simp
      have more: "\<forall>more. synthesized pipeline 0 (map the (taken @ [Some chunk]) @ more) =
          synthesized pipeline 0 (map the (taken @ [Some chunk])) @
            synthesized pipeline (length (taken @ [Some chunk])) more"
      proof
        fix more
        show "synthesized pipeline 0 (map the (taken @ [Some chunk]) @ more) =
          synthesized pipeline 0 (map the (taken @ [Some chunk])) @
            synthesized pipeline (length (taken @ [Some chunk])) more"
          using s [of "chunk # more"] one Inr by simp
      qed
      from t q Some n k p a e one more Inr assms(2) show ?thesis
        unfolding pipeline_inv_def tts_worker_step_def
        by (intro exI [of _ "taken @ [Some chunk]"]) (simp add: ua)
    next
      case (Inl exn)
      show ?thesis
      proof (cases exn)
        case (Exception msg)
        have one: "synthesized pipeline 0 (map the taken @ [chunk]) =
            synthesized pipeline 0 (map the taken)"
          using s [of "[chunk]"] Inl Exception by simp
        have more: "\<forall>more. synthesized pipeline 0 (map the (taken @ [Some chunk]) @ more) =
            synthesized pipeline 0 (map the (taken @ [Some chunk])) @
              synthesized pipeline (length (taken @ [Some chunk])) more"
        proof
          fix more
          show "synthesized pipeline 0 (map the (taken @ [Some chunk]) @ more) =
            synthesized pipeline 0 (map the (taken @ [Some chunk])) @
              synthesized pipeline (length (taken @ [Some chunk])) more"
            using s [of "chunk # more"] one Inl Exception by simp
        qed
        from t q Some n k p a e one more Inl Exception assms(2) show ?thesis
          unfolding pipeline_inv_def tts_worker_step_def
          by (intro exI [of _ "taken @ [Some chunk]"]) simp
      next
        case KeyboardInterrupt
        have "\<forall>more. synthesized pipeline 0 (until_sentinel (tts_puts st @ more)) =
            played st @ until_sentinel (audio_q st)"
        proof
          fix more
          have "until_sentinel (tts_puts st @ more) =
              map the taken @ chunk # until_sentinel (rest @ more)"
            using n t q Some by (simp add: until_sentinel_append)
          then show "synthesized pipeline 0 (until_sentinel (tts_puts st @ more)) =
              played st @ until_sentinel (audio_q st)"
            using s [of "chunk # until_sentinel (rest @ more)"] Inl KeyboardInterrupt e by simp
        qed
        with t q Some k p Inl KeyboardInterrupt show ?thesis
          unfolding pipeline_inv_def tts_worker_step_def
          by (intro exI [of _ "taken @ [Some chunk]"]) simp
      qed
    qed
  qed
qed

lemma reachable_pipeline_inv: "reachable pipeline st \<Longrightarrow> pipeline_inv pipeline st"
proof (induction rule: reachable.induct)
  case start
  show ?case by (rule pipeline_inv_init)
next
  case (after st st')
  from after.hyps(2) after.IH show ?case
    by (cases rule: step.cases)
       (simp_all add: pipeline_inv_put pipeline_inv_synthesize pipeline_inv_play)
qed

lemma pipeline_inv_order:
  assumes "pipeline_inv pipeline st"
  shows "played st @
           (if player_running st then until_sentinel (audio_q st) else []) @
           (if tts_running st
            then synthesized pipeline (tts_calls st) (until_sentinel (tts_q st)) else []) =
         synthesized pipeline 0 (until_sentinel (tts_puts st))"
proof (cases "tts_running st")
  case True
  with assms obtain taken where t: "tts_puts st = taken @ tts_q st"
    and n: "None \<notin> set taken" and k: "tts_calls st = length taken"
    and p: "player_running st"
    and s: "\<And>more. synthesized pipeline 0 (map the taken @ more) =
                 synthesized pipeline 0 (map the taken) @
                   synthesized pipeline (length taken) more"
    and e: "played st @ until_sentinel (audio_q st) = synthesized pipeline 0 (map the taken)"
    unfolding pipeline_inv_def by auto
  have "until_sentinel (tts_puts st) = map the taken @ until_sentinel (tts_q st)"
    using t n by (simp add: until_sentinel_append)
  then have "synthesized pipeline 0 (until_sentinel (tts_puts st)) =
      synthesized pipeline 0 (map the taken) @
        synthesized pipeline (length taken) (until_sentinel (tts_q st))"
    using s by simp
  with e k p True show ?thesis by simp
next
  case False
  with assms have "\<forall>more. synthesized pipeline 0 (until_sentinel (tts_puts st @ more)) =
      played st @ (if player_running st then until_sentinel (audio_q st) else [])"
    unfolding pipeline_inv_def by auto
  then have "synthesized pipeline 0 (until_sentinel (tts_puts st @ [])) =
      played st @ (if player_running st then until_sentinel (audio_q st) else [])"
    by (rule spec)
  with False show ?thesis by simp
qed

lemma pipeline_inv_player_stopped:
  assumes "pipeline_inv pipeline st" and "\<not> player_running st"
  shows "\<not> tts_running st"
  using assms unfolding pipeline_inv_def by auto

section \<open>The loops of the two workers\<close>

lemma tts_worker_go:
  "tts_running st \<Longrightarrow> tts_q st \<noteq> [] \<Longrightarrow>
     tts_worker pipeline st = tts_worker pipeline (tts_worker_step pipeline st)"
  by (simp add: tts_worker.simps [of pipeline st])

lemma tts_worker_wait:
  "\<not> (tts_running st \<and> tts_q st \<noteq> []) \<Longrightarrow> tts_worker pipeline st = st"
  by (auto simp: tts_worker.simps [of pipeline st])

lemma audio_player_go:
  "player_running st \<Longrightarrow> audio_q st \<noteq> [] \<Longrightarrow>
     audio_player st = audio_player (audio_player_step st)"
  by (simp add: audio_player.simps [of st])

lemma audio_player_wait:
  "\<not> (player_running st \<and> audio_q st \<noteq> []) \<Longrightarrow> audio_player st = st"
  by (auto simp: audio_player.simps [of st])

lemma tts_worker_step_frame:
  "tts_puts (tts_worker_step pipeline st) = tts_puts st \<and>
   played (tts_worker_step pipeline st) = played st \<and>
   player_running (tts_worker_step pipeline st) = player_running st \<and>
   messages (tts_worker_step pipeline st) = messages st \<and>
   prefix (printed st) (printed (tts_worker_step pipeline st))"
  by (simp add: tts_worker_step_def split: list.splits option.splits sum.splits py_exn.splits)

lemma audio_player_step_frame:
  "tts_puts (audio_player_step st) = tts_puts st \<and>
   tts_q (audio_player_step st) = tts_q st \<and>
   tts_running (audio_player_step st) = tts_running st \<and>
   tts_calls (audio_player_step st) = tts_calls st \<and>
   messages (audio_player_step st) = messages st"
  by (simp add: audio_player_step_def split: list.splits option.splits)

lemma tts_worker_frame:
  "tts_puts (tts_worker pipeline st) = tts_puts st \<and>
   played (tts_worker pipeline st) = played st \<and>
   player_running (tts_worker pipeline st) = player_running st \<and>
   messages (tts_worker pipeline st) = messages st \<and>
   prefix (printed st) (printed (tts_worker pipeline st)) \<and>
   (tts_running (tts_worker pipeline st) \<longrightarrow> tts_q (tts_worker pipeline st) = [])"
proof (induction pipeline st rule: tts_worker.induct)
  case (1 pipeline st)
  show ?case
  proof (cases "tts_running st \<and> tts_q st \<noteq> []")
    case True
    then have w: "tts_worker pipeline st = tts_worker pipeline (tts_worker_step pipeline st)"
      by (simp add: tts_worker_go)
    from True have ih: "tts_puts (tts_worker pipeline (tts_worker_step pipeline st)) =
          tts_puts (tts_worker_step pipeline st) \<and>
        played (tts_worker pipeline (tts_worker_step pipeline st)) =
          played (tts_worker_step pipeline st) \<and>
        player_running (tts_worker pipeline (tts_worker_step pipeline st)) =
          player_running (tts_worker_step pipeline st) \<and>
        messages (tts_worker pipeline (tts_worker_step pipeline st)) =
          messages (tts_worker_step pipeline st) \<and>
        prefix (printed (tts_worker_step pipeline st))
          (printed (tts_worker pipeline (tts_worker_step pipeline st))) \<and>
        (tts_running (tts_worker pipeline (tts_worker_step pipeline st)) \<longrightarrow>
           tts_q (tts_worker pipeline (tts_worker_step pipeline st)) = [])"
      by (rule 1)
    have "prefix (printed st) (printed (tts_worker_step pipeline st))"
      using tts_worker_step_frame [of pipeline st] by simp
    with ih have "prefix (printed st) (printed (tts_worker pipeline (tts_worker_step pipeline st)))"
      by (meson prefix_order.trans)
    with ih show ?thesis
      unfolding w using tts_worker_step_frame [of pipeline st] by simp
  next
    case False
    then have "tts_worker pipeline st = st" by (rule tts_worker_wait)
    with False show ?thesis by auto
  qed
qed

lemma audio_player_frame:
  "tts_puts (audio_player st) = tts_puts st \<and>
   tts_q (audio_player st) = tts_q st \<and>
   tts_running (audio_player st) = tts_running st \<and>
   tts_calls (audio_player st) = tts_calls st \<and>
   messages (audio_player st) = messages st \<and>
   (player_running (audio_player st) \<longrightarrow> audio_q (audio_player st) = [])"
proof (induction st rule: audio_player.induct)
  case (1 st)
  show ?case
  proof (cases "player_running st \<and> audio_q st \<noteq> []")
    case True
    then have w: "audio_player st = audio_player (audio_player_step st)"
      by (simp add: audio_player_go)
    from True have "tts_puts (audio_player (audio_player_step st)) =
          tts_puts (audio_player_step st) \<and>
        tts_q (audio_player (audio_player_step st)) = tts_q (audio_player_step st) \<and>
        tts_running (audio_player (audio_player_step st)) =
          tts_running (audio_player_step st) \<and>
        tts_calls (audio_player (audio_player_step st)) = tts_calls (audio_player_step st) \<and>
        messages (audio_player (audio_player_step st)) = messages (audio_player_step st) \<and>
        (player_running (audio_player (audio_player_step st)) \<longrightarrow>
           audio_q (audio_player (audio_player_step st)) = [])"
      by (rule 1)
    then show ?thesis
      unfolding w using audio_player_step_frame [of st] by simp
  next
    case False
    then have "audio_player st = st" by (rule audio_player_wait)
    with False show ?thesis by auto
  qed
qed

lemma reachable_tts_worker:
  "reachable pipeline st \<Longrightarrow> reachable pipeline (tts_worker pipeline st)"
proof (induction pipeline st rule: tts_worker.induct)
  case (1 pipeline st)
  show ?case
  proof (cases "tts_running st \<and> tts_q st \<noteq> []")
    case True
    then have "step pipeline st (tts_worker_step pipeline st)"
      by (simp add: step.synthesize)
    with 1(2) have "reachable pipeline (tts_worker_step pipeline st)"
      by (rule reachable.after)
    with True have "reachable pipeline (tts_worker pipeline (tts_worker_step pipeline st))"
      by (rule 1(1))
    with True show ?thesis by (simp add: tts_worker_go)
  next
    case False
    with 1(2) show ?thesis by (simp add: tts_worker_wait)
  qed
qed

lemma reachable_audio_player:
  "reachable pipeline st \<Longrightarrow> reachable pipeline (audio_player st)"
proof (induction st rule: audio_player.induct)
  case (1 st)
  show ?case
  proof (cases "player_running st \<and> audio_q st \<noteq> []")
    case True
    then have "step pipeline st (audio_player_step st)"
      by (simp add: step.play)
    with 1(2) have "reachable pipeline (audio_player_step st)"
      by (rule reachable.after)
    with True have "reachable pipeline (audio_player (audio_player_step st))"
      by (rule 1(1))
    with True show ?thesis by (simp add: audio_player_go)
  next
    case False
    with 1(2) show ?thesis by (simp add: audio_player_wait)
  qed
qed

text \<open>
  The player plays the buffers of its queue from the head, one after the other, up to the
  sentinel, where it stops; with no sentinel on the queue it empties the queue and waits.
\<close>

lemma audio_player_plays:
  assumes "player_running st"
  shows "played (audio_player st) = played st @ until_sentinel (audio_q st) \<and>
         (None \<in> set (audio_q st) \<longrightarrow> \<not> player_running (audio_player st)) \<and>
         (None \<notin> set (audio_q st) \<longrightarrow>
            player_running (audio_player st) \<and> audio_q (audio_player st) = [])"
proof -
  have "\<And>st. audio_q st = q \<Longrightarrow> player_running st \<Longrightarrow>
      played (audio_player st) = played st @ until_sentinel q \<and>
      (None \<in> set q \<longrightarrow> \<not> player_running (audio_player st)) \<and>
      (None \<notin> set q \<longrightarrow> player_running (audio_player st) \<and> audio_q (audio_player st) = [])"
    for q :: "'a option list"
  proof (induction q)
    case Nil
    then show ?case by (simp add: audio_player_wait)
  next
    case (Cons x q)
    from Cons.prems have go: "audio_player st = audio_player (audio_player_step st)"
      by (simp add: audio_player_go)
    show ?case
    proof (cases x)
      case None
      with Cons.prems have s: "audio_player_step st = st\<lparr>audio_q := q, player_running := False\<rparr>"
        by (simp add: audio_player_step_def)
      have "audio_player (st\<lparr>audio_q := q, player_running := False\<rparr>) =
          st\<lparr>audio_q := q, player_running := False\<rparr>"
        by (rule audio_player_wait) simp
      with go s None show ?thesis by simp
    next
      case (Some a)
      with Cons.prems have s: "audio_player_step st = st\<lparr>audio_q := q, played := played st @ [a]\<rparr>"
        by (simp add: audio_player_step_def)
      have "played (audio_player (st\<lparr>audio_q := q, played := played st @ [a]\<rparr>)) =
          played (st\<lparr>audio_q := q, played := played st @ [a]\<rparr>) @ until_sentinel q \<and>
        (None \<in> set q \<longrightarrow>
           \<not> player_running (audio_player (st\<lparr>audio_q := q, played := played st @ [a]\<rparr>))) \<and>
        (None \<notin> set q \<longrightarrow>
           player_running (audio_player (st\<lparr>audio_q := q, played := played st @ [a]\<rparr>)) \<and>
           audio_q (audio_player (st\<lparr>audio_q := q, played := played st @ [a]\<rparr>)) = [])"
        using Cons.prems by (intro Cons.IH) simp_all
      with go s Some show ?thesis by simp
    qed
  qed
  with assms show ?thesis by blast
qed

text \<open>
  The worker puts on \<open>audio_q\<close> the audio of the texts of its queue, in order, up to the
  sentinel, and the sentinel after them when it reaches it.
\<close>

lemma tts_worker_output:
  assumes "tts_running st"
  shows "audio_q (tts_worker pipeline st) =
           audio_q st @
             map Some (synthesized pipeline (tts_calls st) (until_sentinel (tts_q st))) \<or>
         audio_q (tts_worker pipeline st) =
           audio_q st @
             map Some (synthesized pipeline (tts_calls st) (until_sentinel (tts_q st))) @ [None]"
proof -
  have "\<And>st. tts_q st = q \<Longrightarrow> tts_running st \<Longrightarrow>
      audio_q (tts_worker pipeline st) =
        audio_q st @ map Some (synthesized pipeline (tts_calls st) (until_sentinel q)) \<or>
      audio_q (tts_worker pipeline st) =
        audio_q st @ map Some (synthesized pipeline (tts_calls st) (until_sentinel q)) @ [None]"
    for q :: "string option list"
  proof (induction q)
    case Nil
    then show ?case by (simp add: tts_worker_wait)
  next
    case (Cons x q)
    from Cons.prems have go: "tts_worker pipeline st = tts_worker pipeline (tts_worker_step pipeline st)"
      by (simp add: tts_worker_go)
    show ?case
    proof (cases x)
      case None
      with Cons.prems have s: "tts_worker_step pipeline st =
          st\<lparr>tts_q := q, audio_q := audio_q st @ [None], tts_running := False\<rparr>"
        by (simp add: tts_worker_step_def)
      have "tts_worker pipeline (st\<lparr>tts_q := q, audio_q := audio_q st @ [None], tts_running := False\<rparr>) =
          st\<lparr>tts_q := q, audio_q := audio_q st @ [None], tts_running := False\<rparr>"
        by (rule tts_worker_wait) simp
      with go s None show ?thesis by simp
    next
      case (Some chunk)
      show ?thesis
      proof (cases "pipeline (tts_calls st) chunk")
        case (Inr audio)
        let ?st' = "st\<lparr>tts_q := q, audio_q := audio_q st @ [Some audio],
                  tts_calls := Suc (tts_calls st)\<rparr>"
        from Cons.prems Some Inr have s: "tts_worker_step pipeline st = ?st'"
          by (simp add: tts_worker_step_def)
        have "audio_q (tts_worker pipeline ?st') =
            audio_q ?st' @ map Some (synthesized pipeline (tts_calls ?st') (until_sentinel q)) \<or>
          audio_q (tts_worker pipeline ?st') =
            audio_q ?st' @ map Some (synthesized pipeline (tts_calls ?st') (until_sentinel q)) @ [None]"
          using Cons.prems by (intro Cons.IH) simp_all
        with go s Some Inr show ?thesis by simp
      next
        case (Inl exn)
        show ?thesis
        proof (cases exn)
          case (Exception msg)
          let ?st' = "st\<lparr>tts_q := q,
                  printed := printed st @ [newline # ''[TTS error] '' @ msg @ [newline]],
                  tts_calls := Suc (tts_calls st)\<rparr>"
          from Cons.prems Some Inl Exception have s: "tts_worker_step pipeline st = ?st'"
            by (simp add: tts_worker_step_def)
          have "audio_q (tts_worker pipeline ?st') =
              audio_q ?st' @ map Some (synthesized pipeline (tts_calls ?st') (until_sentinel q)) \<or>
            audio_q (tts_worker pipeline ?st') =
              audio_q ?st' @ map Some (synthesized pipeline (tts_calls ?st') (until_sentinel q)) @ [None]"
            using Cons.prems by (intro Cons.IH) simp_all
          with go s Some Inl Exception show ?thesis by simp
        next
          case KeyboardInterrupt
          let ?st' = "st\<lparr>tts_q := q, tts_running := False, tts_calls := Suc (tts_calls st)\<rparr>"
          from Cons.prems Some Inl KeyboardInterrupt have s: "tts_worker_step pipeline st = ?st'"
            by (simp add: tts_worker_step_def)
          have "tts_worker pipeline ?st' = ?st'"
            by (rule tts_worker_wait) simp
          with go s Some Inl KeyboardInterrupt show ?thesis by simp
        qed
      qed
    qed
  qed
  with assms show ?thesis by blast
qed

lemma reachable_perform:
  "reachable pipeline st \<Longrightarrow> reachable pipeline (perform pipeline a st)"
  by (cases a) (auto intro: reachable.after step.intros)

lemma reachable_run_schedule:
  "reachable pipeline st \<Longrightarrow> reachable pipeline (run_schedule pipeline acts st)"
  by (induction acts arbitrary: st) (simp_all add: reachable_perform)

text \<open>
  C8. The player takes the buffers from the head of \<open>audio_q\<close>: a turn of its loop on
  a buffer removes it from the queue and plays it, a turn on the sentinel ends the loop
  and plays nothing; so the loop plays the buffers of the queue in their order up to the
  sentinel and stops there. In every state that the program reaches, whatever the
  interleaving of the threads, the audio played so far, then the audio waiting on
  \<open>audio_q\<close>, then the audio that \<open>tts_worker\<close> makes of the texts waiting on \<open>tts_q\<close>,
  is the audio of the texts put on \<open>tts_q\<close>, in the order of the puts, up to the
  sentinel: the buffers are played in the order of the text chunks. And when from such a
  state the two workers run until they stop or wait, all of that audio has been played.
\<close>

theorem playback_in_put_order:
  "reachable pipeline st \<Longrightarrow>
     (audio_q st = Some a # rest \<longrightarrow>
        audio_player_step st = st\<lparr>audio_q := rest, played := played st @ [a]\<rparr>) \<and>
     (audio_q st = None # rest \<longrightarrow>
        audio_player_step st = st\<lparr>audio_q := rest, player_running := False\<rparr>) \<and>
     (player_running st \<longrightarrow>
        played (audio_player st) = played st @ until_sentinel (audio_q st) \<and>
        (None \<in> set (audio_q st) \<longrightarrow> \<not> player_running (audio_player st)) \<and>
        (None \<notin> set (audio_q st) \<longrightarrow>
           player_running (audio_player st) \<and> audio_q (audio_player st) = [])) \<and>
     played st @
       (if player_running st then until_sentinel (audio_q st) else []) @
       (if tts_running st
        then synthesized pipeline (tts_calls st) (until_sentinel (tts_q st)) else []) =
     synthesized pipeline 0 (until_sentinel (tts_puts st)) \<and>
     prefix (played st) (synthesized pipeline 0 (until_sentinel (tts_puts st))) \<and>
     (\<not> player_running st \<longrightarrow>
        played st = synthesized pipeline 0 (until_sentinel (tts_puts st))) \<and>
     played (audio_player (tts_worker pipeline st)) =
       synthesized pipeline 0 (until_sentinel (tts_puts st))"
proof -
  assume r: "reachable pipeline st"
  then have inv: "pipeline_inv pipeline st" by (rule reachable_pipeline_inv)
  then have e: "played st @
       (if player_running st then until_sentinel (audio_q st) else []) @
       (if tts_running st
        then synthesized pipeline (tts_calls st) (until_sentinel (tts_q st)) else []) =
     synthesized pipeline 0 (until_sentinel (tts_puts st))"
    by (rule pipeline_inv_order)
  then have p: "prefix (played st) (synthesized pipeline 0 (until_sentinel (tts_puts st)))"
    by (metis prefixI)
  have s: "played st = synthesized pipeline 0 (until_sentinel (tts_puts st))"
    if "\<not> player_running st"
    using e that pipeline_inv_player_stopped [OF inv that] by simp
  have t1: "audio_player_step st = st\<lparr>audio_q := rest, played := played st @ [a]\<rparr>"
    if "audio_q st = Some a # rest"
    using that by (simp add: audio_player_step_def)
  have t2: "audio_player_step st = st\<lparr>audio_q := rest, player_running := False\<rparr>"
    if "audio_q st = None # rest"
    using that by (simp add: audio_player_step_def)
  have l: "played (audio_player st) = played st @ until_sentinel (audio_q st) \<and>
        (None \<in> set (audio_q st) \<longrightarrow> \<not> player_running (audio_player st)) \<and>
        (None \<notin> set (audio_q st) \<longrightarrow>
           player_running (audio_player st) \<and> audio_q (audio_player st) = [])"
    if "player_running st"
    using that by (rule audio_player_plays)
  let ?st1 = "tts_worker pipeline st"
  let ?st2 = "audio_player ?st1"
  from r have "reachable pipeline ?st1" by (rule reachable_tts_worker)
  then have "reachable pipeline ?st2" by (rule reachable_audio_player)
  then have "pipeline_inv pipeline ?st2" by (rule reachable_pipeline_inv)
  then have e2: "played ?st2 @
       (if player_running ?st2 then until_sentinel (audio_q ?st2) else []) @
       (if tts_running ?st2
        then synthesized pipeline (tts_calls ?st2) (until_sentinel (tts_q ?st2)) else []) =
     synthesized pipeline 0 (until_sentinel (tts_puts ?st2))"
    by (rule pipeline_inv_order)
  have a1: "player_running ?st2 \<longrightarrow> audio_q ?st2 = []"
    using audio_player_frame [of ?st1] by simp
  have a2: "tts_running ?st2 \<longrightarrow> tts_q ?st2 = []"
    using audio_player_frame [of ?st1] tts_worker_frame [of pipeline st] by simp
  have a3: "tts_puts ?st2 = tts_puts st"
    using audio_player_frame [of ?st1] tts_worker_frame [of pipeline st] by simp
  from e2 a1 a2 have "played ?st2 = synthesized pipeline 0 (until_sentinel (tts_puts ?st2))"
    by (auto split: if_splits)
  with a3 have c: "played ?st2 = synthesized pipeline 0 (until_sentinel (tts_puts st))"
    by simp
  from t1 t2 l e p s c show ?thesis by blast
qed

theorem playback_in_put_order_witness:
  "played (audio_player (tts_worker
       (\<lambda>n s. if s = ''two'' then Inl (Exception ''boom'') else Inr s)
       (run_schedule (\<lambda>n s. if s = ''two'' then Inl (Exception ''boom'') else Inr s)
          [Put (Some ''one''), Put (Some ''two''), Synthesize, Put (Some ''three''), Play,
           Put None, Put (Some ''four'')]
          init_state))) = [''one'', ''three'']"
proof -
  define engine :: "nat \<Rightarrow> string \<Rightarrow> py_exn + string"
    where "engine = (\<lambda>n s. if s = ''two'' then Inl (Exception ''boom'') else Inr s)"
  define st where "st = run_schedule engine
       [Put (Some ''one''), Put (Some ''two''), Synthesize, Put (Some ''three''), Play,
        Put None, Put (Some ''four'')]
       init_state"
  have r: "reachable engine st"
    unfolding st_def by (rule reachable_run_schedule) (rule reachable.start)
  have u: "synthesized engine 0 (until_sentinel (tts_puts st)) = [''one'', ''three'']"
    unfolding st_def engine_def by code_simp
  from playback_in_put_order [OF r] u
  have "played (audio_player (tts_worker engine st)) = [''one'', ''three'']" by simp
  then show ?thesis unfolding st_def engine_def .
qed

text \<open>
  C7. When the engine raises an exception of class \<open>Exception\<close> for a chunk, the turn of
  \<open>tts_worker\<close> takes the chunk off \<open>tts_q\<close>, prints the error and changes nothing
  else: no audio is put on \<open>audio_q\<close>. The loop goes on with the items behind the chunk:
  a next chunk that the engine serves has its audio put on \<open>audio_q\<close> by the next turn,
  and the loop as a whole puts on \<open>audio_q\<close> the audio of all the texts behind the failed
  chunk, in order, up to the sentinel (and the sentinel when it reaches it); a worker
  still running at the end waits on the empty queue. The player, what was played and the
  messages of the conversation are untouched.
\<close>

theorem tts_worker_skips_failed_chunk:
  "tts_running st \<Longrightarrow>
   tts_q st = Some chunk # rest \<Longrightarrow>
   pipeline (tts_calls st) chunk = Inl (Exception e) \<Longrightarrow>
     tts_worker_step pipeline st =
       st\<lparr>tts_q := rest,
          printed := printed st @ [newline # ''[TTS error] '' @ e @ [newline]],
          tts_calls := Suc (tts_calls st)\<rparr> \<and>
     (rest = Some chunk' # rest' \<and> pipeline (Suc (tts_calls st)) chunk' = Inr audio \<longrightarrow>
        tts_worker_step pipeline (tts_worker_step pipeline st) =
          st\<lparr>tts_q := rest',
             printed := printed st @ [newline # ''[TTS error] '' @ e @ [newline]],
             audio_q := audio_q st @ [Some audio],
             tts_calls := Suc (Suc (tts_calls st))\<rparr>) \<and>
     (audio_q (tts_worker pipeline st) =
        audio_q st @
          map Some (synthesized pipeline (Suc (tts_calls st)) (until_sentinel rest)) \<or>
      audio_q (tts_worker pipeline st) =
        audio_q st @
          map Some (synthesized pipeline (Suc (tts_calls st)) (until_sentinel rest)) @ [None]) \<and>
     prefix (printed st @ [newline # ''[TTS error] '' @ e @ [newline]])
       (printed (tts_worker pipeline st)) \<and>
     (tts_running (tts_worker pipeline st) \<longrightarrow> tts_q (tts_worker pipeline st) = []) \<and>
     player_running (tts_worker pipeline st) = player_running st \<and>
     played (tts_worker pipeline st) = played st \<and>
     messages (tts_worker pipeline st) = messages st"
proof -
  assume r: "tts_running st" and q: "tts_q st = Some chunk # rest"
    and f: "pipeline (tts_calls st) chunk = Inl (Exception e)"
  let ?st' = "st\<lparr>tts_q := rest,
          printed := printed st @ [newline # ''[TTS error] '' @ e @ [newline]],
          tts_calls := Suc (tts_calls st)\<rparr>"
  from q f have eq: "tts_worker_step pipeline st = ?st'"
    by (simp add: tts_worker_step_def)
  have two: "tts_worker_step pipeline ?st' =
          st\<lparr>tts_q := rest',
             printed := printed st @ [newline # ''[TTS error] '' @ e @ [newline]],
             audio_q := audio_q st @ [Some audio],
             tts_calls := Suc (Suc (tts_calls st))\<rparr>"
    if "rest = Some chunk' # rest' \<and> pipeline (Suc (tts_calls st)) chunk' = Inr audio"
    using that by (simp add: tts_worker_step_def)
  from r q have go: "tts_worker pipeline st = tts_worker pipeline ?st'"
    using tts_worker_go [of st pipeline] eq by simp
  have r': "tts_running ?st'" using r by simp
  have out: "audio_q (tts_worker pipeline ?st') =
        audio_q ?st' @
          map Some (synthesized pipeline (tts_calls ?st') (until_sentinel (tts_q ?st'))) \<or>
      audio_q (tts_worker pipeline ?st') =
        audio_q ?st' @
          map Some (synthesized pipeline (tts_calls ?st') (until_sentinel (tts_q ?st'))) @ [None]"
    using r' by (rule tts_worker_output)
  have fr: "played (tts_worker pipeline ?st') = played ?st' \<and>
      player_running (tts_worker pipeline ?st') = player_running ?st' \<and>
      messages (tts_worker pipeline ?st') = messages ?st' \<and>
      prefix (printed ?st') (printed (tts_worker pipeline ?st')) \<and>
      (tts_running (tts_worker pipeline ?st') \<longrightarrow> tts_q (tts_worker pipeline ?st') = [])"
    using tts_worker_frame [of pipeline ?st'] by simp
  from two out fr show ?thesis unfolding go eq by simp
qed

theorem tts_worker_skips_failed_chunk_witness:
  "tts_worker_step (\<lambda>n s. if s = ''two'' then Inl (Exception ''boom'') else Inr s)
     (init_state\<lparr>tts_q := [Some ''two'', Some ''three'', None]\<rparr>) =
   init_state\<lparr>tts_q := [Some ''three'', None],
      printed := [newline # ''[TTS error] boom'' @ [newline]], tts_calls := 1\<rparr> \<and>
   audio_q (tts_worker (\<lambda>n s. if s = ''two'' then Inl (Exception ''boom'') else Inr s)
     (init_state\<lparr>tts_q := [Some ''two'', Some ''three'', None]\<rparr>)) =
   [Some ''three'', None]"
proof -
  define engine :: "nat \<Rightarrow> string \<Rightarrow> py_exn + string"
    where "engine = (\<lambda>n s. if s = ''two'' then Inl (Exception ''boom'') else Inr s)"
  define st :: "string stream_state"
    where "st = init_state\<lparr>tts_q := [Some ''two'', Some ''three'', None]\<rparr>"
  have r: "tts_running st" by (simp add: st_def init_state_def)
  have q: "tts_q st = Some ''two'' # [Some ''three'', None]" by (simp add: st_def)
  have f: "engine (tts_calls st) ''two'' = Inl (Exception ''boom'')" by (simp add: engine_def)
  have a: "audio_q (tts_worker engine st) = [Some ''three'', None]"
    unfolding st_def engine_def by code_simp
  from tts_worker_skips_failed_chunk
         [where pipeline = engine and st = st and chunk = "''two''" and e = "''boom''"
            and rest = "[Some ''three'', None]", OF r q f] a
  have "tts_worker_step engine st =
      st\<lparr>tts_q := [Some ''three'', None],
         printed := printed st @ [newline # ''[TTS error] '' @ ''boom'' @ [newline]],
         tts_calls := Suc (tts_calls st)\<rparr> \<and>
    audio_q (tts_worker engine st) = [Some ''three'', None]"
    by blast
  then show ?thesis unfolding st_def engine_def by (simp add: init_state_def)
qed

lemma messages_tts_put_all: "messages (tts_put_all cs st) = messages st"
  by (induction cs arbitrary: st) (simp_all add: tts_put_def)

lemma messages_stream_loop:
  "messages (snd (snd (stream_loop full buffer st events))) = messages st"
  by (induction full buffer st events rule: stream_loop.induct)
     (simp_all add: split_beta messages_tts_put_all)

lemma messages_handle_exn: "messages (fst (handle_exn e st)) = messages st"
  by (cases e) simp_all

text \<open>
  C9. A turn whose backend call raises, at \<open>create\<close> or while the stream is read,
  after any number of events, leaves the message list as it was but for the user
  message of the turn: no assistant message is appended.
\<close>

theorem failed_turn_appends_no_assistant_message:
  "strip line \<noteq> [] \<Longrightarrow>
   backend = CreateRaises e \<or> backend = Stream events (Some e) \<Longrightarrow>
     messages (fst (chat_turn line backend st)) = messages st @ [(User, strip line)]"
proof -
  assume l: "strip line \<noteq> []"
    and b: "backend = CreateRaises e \<or> backend = Stream events (Some e)"
  let ?st1 = "st\<lparr>messages := messages st @ [(User, strip line)]\<rparr>"
  from b show ?thesis
  proof
    assume "backend = CreateRaises e"
    with l show ?thesis by (simp add: chat_turn_def messages_handle_exn)
  next
    assume s: "backend = Stream events (Some e)"
    have "messages (snd (snd (stream_loop [] [] ?st1 events))) = messages ?st1"
      by (rule messages_stream_loop)
    with l s show ?thesis
      by (simp add: chat_turn_def split_beta messages_handle_exn)
  qed
qed

theorem failed_turn_appends_no_assistant_message_witness:
  "strip '' hi '' \<noteq> [] \<and>
   messages (fst (chat_turn '' hi '' (Stream [Some ''Hello. Wor''] (Some (Exception ''reset'')))
      (init_state :: unit stream_state))) = [(User, ''hi'')] \<and>
   tts_q (fst (chat_turn '' hi '' (Stream [Some ''Hello. Wor''] (Some (Exception ''reset'')))
      (init_state :: unit stream_state))) = [Some ''Hello.'']"
proof -
  have l: "strip '' hi '' \<noteq> []" by code_simp
  have s: "strip '' hi '' = ''hi''" by code_simp
  have q: "tts_q (fst (chat_turn '' hi '' (Stream [Some ''Hello. Wor''] (Some (Exception ''reset'')))
      (init_state :: unit stream_state))) = [Some ''Hello.'']"
    by code_simp
  from failed_turn_appends_no_assistant_message
    [where line = "'' hi ''" and e = "Exception ''reset''" and events = "[Some ''Hello. Wor'']"
       and backend = "Stream [Some ''Hello. Wor''] (Some (Exception ''reset''))"
       and st = "init_state :: unit stream_state", OF l]
    s q
  show ?thesis by (simp add: init_state_def)
qed

text \<open>A turn whose stream ends without an exception appends the whole reply.\<close>

lemma full_stream_loop:
  "fst (stream_loop full buffer st (map Some tokens)) = full @ concat tokens"
  by (induction tokens arbitrary: full buffer st) (simp_all add: split_beta)

lemma completed_turn_appends_reply:
  "strip line \<noteq> [] \<Longrightarrow>
     messages (fst (chat_turn line (Stream (map Some tokens) None) st)) =
       messages st @ [(User, strip line), (Assistant, concat tokens)]"
  using messages_stream_loop
    [of "[]" "[]" "st\<lparr>messages := messages st @ [(User, strip line)]\<rparr>" "map Some tokens"]
  by (simp add: chat_turn_def Let_def split_beta full_stream_loop tts_put_def)

section \<open>The synthesis adapter: the claims\<close>

lemma get_pipeline_cached:
  "get_pipeline e lang st = (Inr p, st1) \<Longrightarrow> pipelines st1 lang = Some p"
  by (auto simp: get_pipeline_def Let_def split: option.splits)

lemma get_pipeline_fresh:
  assumes "pipelines st lang = None" and "KPipeline e lang (constructed st) = None"
  shows "get_pipeline e lang st =
           (Inr (constructed st),
            st\<lparr>pipelines := (pipelines st)(lang \<mapsto> constructed st),
               constructed := Suc (constructed st),
               trace := trace st @ [Construct lang (constructed st)]\<rparr>)"
  using assms by (simp add: get_pipeline_def Let_def)

text \<open>
  C6, as the code has it. A requested voice name that is not empty and whose trimmed
  form is not in the voice catalog makes \<open>synthesize_audio\<close> raise the \<open>ValueError\<close> of
  \<open>get_voice_info\<close>, and the state is as before: no pipeline was looked up or
  constructed and the engine was not called. The empty name is served as no name is: with
  the default voice.
\<close>

theorem unknown_voice_fails_before_engine:
  "(v \<noteq> [] \<and> voice_catalog e (strip v) = None \<longrightarrow>
      synthesize_audio e text (Some v) st = (Inl (VoiceNotAvailable (strip v)), st)) \<and>
   synthesize_audio e text (Some []) st = synthesize_audio e text None st"
  by (simp add: synthesize_audio_def get_voice_info_def)

theorem unknown_voice_fails_before_engine_witness:
  "synthesize_audio
     \<lparr>voice_catalog = [''af_nicole'' \<mapsto> ''a''], DEFAULT_VOICE = ''af_nicole'',
      KPipeline = (\<lambda>l n. None), engine = (\<lambda>p t v. Inr [[1::int]]),
      audio_to_wav_base64 = (\<lambda>a. ''UklGRg=='')\<rparr>
     (Some ''hi'') (Some ''bm_nobody'')
     \<lparr>pipelines = Map.empty, constructed = 0, trace = []\<rparr> =
   (Inl (VoiceNotAvailable ''bm_nobody''), \<lparr>pipelines = Map.empty, constructed = 0, trace = []\<rparr>)"
proof -
  define e :: "int env" where "e =
     \<lparr>voice_catalog = [''af_nicole'' \<mapsto> ''a''], DEFAULT_VOICE = ''af_nicole'',
      KPipeline = (\<lambda>l n. None), engine = (\<lambda>p t v. Inr [[1::int]]),
      audio_to_wav_base64 = (\<lambda>a. ''UklGRg=='')\<rparr>"
  have s: "strip ''bm_nobody'' = ''bm_nobody''" by code_simp
  have a: "''bm_nobody'' \<noteq> [] \<and> voice_catalog e (strip ''bm_nobody'') = None"
    unfolding s e_def by simp
  from unknown_voice_fails_before_engine [of "''bm_nobody''" e] a s
  show ?thesis unfolding e_def by simp
qed

text \<open>
  The claim as the specification states it fails. The name \<open> af_nicole\<close>, with a space
  before it, is not in the catalog, and the request is served with the voice
  \<open>af_nicole\<close>, since the name is trimmed before the lookup; the empty name is not in
  the catalog either, and the request is served with the default voice.
\<close>

theorem unknown_voice_counterexample:
  "voice_catalog
     \<lparr>voice_catalog = [''af_nicole'' \<mapsto> ''a''], DEFAULT_VOICE = ''af_nicole'',
      KPipeline = (\<lambda>l n. None), engine = (\<lambda>p t v. Inr [[1::int]]),
      audio_to_wav_base64 = (\<lambda>a. ''UklGRg=='')\<rparr> '' af_nicole'' = None \<and>
   fst (synthesize_audio
     \<lparr>voice_catalog = [''af_nicole'' \<mapsto> ''a''], DEFAULT_VOICE = ''af_nicole'',
      KPipeline = (\<lambda>l n. None), engine = (\<lambda>p t v. Inr [[1::int]]),
      audio_to_wav_base64 = (\<lambda>a. ''UklGRg=='')\<rparr>
     (Some ''hi'') (Some '' af_nicole'')
     \<lparr>pipelines = Map.empty, constructed = 0, trace = []\<rparr>) = Inr (''UklGRg=='', ''af_nicole'') \<and>
   voice_catalog
     \<lparr>voice_catalog = [''af_nicole'' \<mapsto> ''a''], DEFAULT_VOICE = ''af_nicole'',
      KPipeline = (\<lambda>l n. None), engine = (\<lambda>p t v. Inr [[1::int]]),
      audio_to_wav_base64 = (\<lambda>a. ''UklGRg=='')\<rparr> [] = None \<and>
   fst (synthesize_audio
     \<lparr>voice_catalog = [''af_nicole'' \<mapsto> ''a''], DEFAULT_VOICE = ''af_nicole'',
      KPipeline = (\<lambda>l n. None), engine = (\<lambda>p t v. Inr [[1::int]]),
      audio_to_wav_base64 = (\<lambda>a. ''UklGRg=='')\<rparr>
     (Some ''hi'') (Some [])
     \<lparr>pipelines = Map.empty, constructed = 0, trace = []\<rparr>) = Inr (''UklGRg=='', ''af_nicole'')"
  by code_simp

lemma engine_calls_append: "engine_calls (xs @ ys) = engine_calls xs @ engine_calls ys"
  by (induction xs rule: engine_calls.induct) simp_all

text \<open>
  C5, as the code has it. Take a request whose first engine call fails. When the failure
  is outside the class \<open>Exception\<close>, it leaves \<open>synthesize_audio\<close> as it is, with no
  retry and no eviction. When it is of class \<open>Exception\<close> (an exception of the engine, or
  no audio), the cache entry of the language is popped and one retry starts with the
  construction of a new pipeline. When the constructor raises, its exception leaves
  \<open>synthesize_audio\<close> unwrapped: one engine call and one eviction in all. When it
  returns, the engine is called exactly once more, on the new pipeline; when this call
  fails with an exception of class \<open>Exception\<close> too, \<open>synthesize_audio\<close> raises the
  \<open>RuntimeError\<close> with the exception of the second failure as its cause, and the cache
  entry has been popped after each failure, twice in all: first the pipeline the request
  started with, then the one constructed for the retry; no entry is left.
\<close>

theorem engine_failing_twice:
  assumes "get_voice_info e voice_name = Inr (voice, lang)"
    and "strip (case text of None \<Rightarrow> [] | Some t \<Rightarrow> t) = clean" and "clean \<noteq> []"
    and "get_pipeline e lang st = (Inr p0, st1)"
  shows "(run_engine e p0 clean voice = Inl KeyboardInterrupt \<longrightarrow>
            synthesize_audio e text voice_name st =
              (Inl (Uncaught KeyboardInterrupt), st1\<lparr>trace := trace st1 @ [Call p0]\<rparr>)) \<and>
         (run_engine e p0 clean voice = Inl (Exception m0) \<longrightarrow>
            (KPipeline e lang (constructed st1) = Some exc \<longrightarrow>
               synthesize_audio e text voice_name st =
                 (Inl (Uncaught exc),
                  st1\<lparr>pipelines := (pipelines st1)(lang := None),
                     trace := trace st1 @ [Call p0, Pop lang (Some p0)]\<rparr>)) \<and>
            (KPipeline e lang (constructed st1) = None \<longrightarrow>
               engine_calls (trace (snd (synthesize_audio e text voice_name st))) =
                 engine_calls (trace st1) @ [p0, constructed st1] \<and>
               (run_engine e (constructed st1) clean voice = Inl (Exception m1) \<longrightarrow>
                  fst (synthesize_audio e text voice_name st) =
                    Inl (TTSFailed voice (Some (Exception m1))) \<and>
                  trace (snd (synthesize_audio e text voice_name st)) =
                    trace st1 @ [Call p0, Pop lang (Some p0), Construct lang (constructed st1),
                                 Call (constructed st1), Pop lang (Some (constructed st1))] \<and>
                  pipelines (snd (synthesize_audio e text voice_name st)) lang = None)))"
proof -
  let ?st2 = "st1\<lparr>trace := trace st1 @ [Call p0]\<rparr>"
  let ?st3 = "pop_pipeline lang ?st2"
  have c: "pipelines st1 lang = Some p0" using assms(4) by (rule get_pipeline_cached)
  have s: "synthesize_audio e text voice_name st =
      attempt_loop e clean voice lang None [0, 1] st"
    using assms(1-3) by (simp add: synthesize_audio_def)
  have ki: "synthesize_audio e text voice_name st = (Inl (Uncaught KeyboardInterrupt), ?st2)"
    if "run_engine e p0 clean voice = Inl KeyboardInterrupt"
    unfolding s using assms(4) that by simp
  have r: "synthesize_audio e text voice_name st =
      attempt_loop e clean voice lang (Some (Exception m0)) [1] ?st3"
    if "run_engine e p0 clean voice = Inl (Exception m0)"
    unfolding s using assms(4) that by simp
  have n: "pipelines ?st3 lang = None" by (simp add: pop_pipeline_def)
  have ctor: "synthesize_audio e text voice_name st =
                 (Inl (Uncaught exc),
                  st1\<lparr>pipelines := (pipelines st1)(lang := None),
                     trace := trace st1 @ [Call p0, Pop lang (Some p0)]\<rparr>)"
    if "run_engine e p0 clean voice = Inl (Exception m0)"
      and "KPipeline e lang (constructed st1) = Some exc"
  proof -
    have "get_pipeline e lang ?st3 = (Inl exc, ?st3)"
      using n that(2) by (simp add: get_pipeline_def pop_pipeline_def)
    then show ?thesis
      unfolding r [OF that(1)] using c by (simp add: pop_pipeline_def)
  qed
  have g: "get_pipeline e lang ?st3 =
      (Inr (constructed st1),
       ?st3\<lparr>pipelines := (pipelines ?st3)(lang \<mapsto> constructed st1),
          constructed := Suc (constructed st1),
          trace := trace ?st3 @ [Construct lang (constructed st1)]\<rparr>)"
    if "KPipeline e lang (constructed st1) = None"
    using get_pipeline_fresh [of ?st3 lang e] that by (simp add: pop_pipeline_def)
  have calls: "engine_calls (trace (snd (synthesize_audio e text voice_name st))) =
      engine_calls (trace st1) @ [p0, constructed st1]"
    if "run_engine e p0 clean voice = Inl (Exception m0)"
      and "KPipeline e lang (constructed st1) = None"
    unfolding r [OF that(1)] using g [OF that(2)] c
    by (simp add: Let_def pop_pipeline_def engine_calls_append split: sum.splits py_exn.splits)
  have twice: "fst (synthesize_audio e text voice_name st) =
              Inl (TTSFailed voice (Some (Exception m1))) \<and>
            trace (snd (synthesize_audio e text voice_name st)) =
              trace st1 @ [Call p0, Pop lang (Some p0), Construct lang (constructed st1),
                           Call (constructed st1), Pop lang (Some (constructed st1))] \<and>
            pipelines (snd (synthesize_audio e text voice_name st)) lang = None"
    if "run_engine e p0 clean voice = Inl (Exception m0)"
      and "KPipeline e lang (constructed st1) = None"
      and "run_engine e (constructed st1) clean voice = Inl (Exception m1)"
    unfolding r [OF that(1)] using g [OF that(2)] c that(3) by (simp add: pop_pipeline_def)
  from ki ctor calls twice show ?thesis by blast
qed

theorem engine_failing_twice_witness:
  "fst (synthesize_audio
     \<lparr>voice_catalog = [''af_nicole'' \<mapsto> ''a''], DEFAULT_VOICE = ''af_nicole'',
      KPipeline = (\<lambda>l n. None),
      engine = (\<lambda>p t v. Inl (Exception (if p = 0 then ''first'' else ''second''))),
      audio_to_wav_base64 = (\<lambda>a::int list. ''UklGRg=='')\<rparr>
     (Some '' hi'') (Some ''af_nicole'')
     \<lparr>pipelines = [''a'' \<mapsto> 0], constructed = 1, trace = []\<rparr>) =
     Inl (TTSFailed ''af_nicole'' (Some (Exception ''second''))) \<and>
   pipelines (snd (synthesize_audio
     \<lparr>voice_catalog = [''af_nicole'' \<mapsto> ''a''], DEFAULT_VOICE = ''af_nicole'',
      KPipeline = (\<lambda>l n. None),
      engine = (\<lambda>p t v. Inl (Exception (if p = 0 then ''first'' else ''second''))),
      audio_to_wav_base64 = (\<lambda>a::int list. ''UklGRg=='')\<rparr>
     (Some '' hi'') (Some ''af_nicole'')
     \<lparr>pipelines = [''a'' \<mapsto> 0], constructed = 1, trace = []\<rparr>)) ''a'' = None \<and>
   fst (synthesize_audio
     \<lparr>voice_catalog = [''af_nicole'' \<mapsto> ''a''], DEFAULT_VOICE = ''af_nicole'',
      KPipeline = (\<lambda>l n. Some (Exception ''no model'')),
      engine = (\<lambda>p t v. Inl (Exception ''first'')),
      audio_to_wav_base64 = (\<lambda>a::int list. ''UklGRg=='')\<rparr>
     (Some '' hi'') (Some ''af_nicole'')
     \<lparr>pipelines = [''a'' \<mapsto> 0], constructed = 1, trace = []\<rparr>) =
     Inl (Uncaught (Exception ''no model'')) \<and>
   trace (snd (synthesize_audio
     \<lparr>voice_catalog = [''af_nicole'' \<mapsto> ''a''], DEFAULT_VOICE = ''af_nicole'',
      KPipeline = (\<lambda>l n. Some (Exception ''no model'')),
      engine = (\<lambda>p t v. Inl (Exception ''first'')),
      audio_to_wav_base64 = (\<lambda>a::int list. ''UklGRg=='')\<rparr>
     (Some '' hi'') (Some ''af_nicole'')
     \<lparr>pipelines = [''a'' \<mapsto> 0], constructed = 1, trace = []\<rparr>)) =
     [Call 0, Pop ''a'' (Some 0)]"
proof -
  define e :: "int env" where "e =
     \<lparr>voice_catalog = [''af_nicole'' \<mapsto> ''a''], DEFAULT_VOICE = ''af_nicole'',
      KPipeline = (\<lambda>l n. None),
      engine = (\<lambda>p t v. Inl (Exception (if p = 0 then ''first'' else ''second''))),
      audio_to_wav_base64 = (\<lambda>a::int list. ''UklGRg=='')\<rparr>"
  define e' :: "int env" where "e' =
     \<lparr>voice_catalog = [''af_nicole'' \<mapsto> ''a''], DEFAULT_VOICE = ''af_nicole'',
      KPipeline = (\<lambda>l n. Some (Exception ''no model'')),
      engine = (\<lambda>p t v. Inl (Exception ''first'')),
      audio_to_wav_base64 = (\<lambda>a::int list. ''UklGRg=='')\<rparr>"
  define st where "st = \<lparr>pipelines = [''a'' \<mapsto> (0::nat)], constructed = 1, trace = []\<rparr>"
  have s: "strip ''af_nicole'' = ''af_nicole''" by code_simp
  have h1: "get_voice_info e (Some ''af_nicole'') = Inr (''af_nicole'', ''a'')"
    by (simp add: get_voice_info_def s e_def)
  have h1': "get_voice_info e' (Some ''af_nicole'') = Inr (''af_nicole'', ''a'')"
    by (simp add: get_voice_info_def s e'_def)
  have h2: "strip (case Some '' hi'' of None \<Rightarrow> [] | Some t \<Rightarrow> t) = ''hi''" by code_simp
  have h3: "''hi'' \<noteq> []" by simp
  have h4: "get_pipeline e ''a'' st = (Inr 0, st)" by (simp add: get_pipeline_def st_def)
  have h4': "get_pipeline e' ''a'' st = (Inr 0, st)" by (simp add: get_pipeline_def st_def)
  have h5: "run_engine e 0 ''hi'' ''af_nicole'' = Inl (Exception ''first'')"
    by (simp add: run_engine_def e_def)
  have h5': "run_engine e' 0 ''hi'' ''af_nicole'' = Inl (Exception ''first'')"
    by (simp add: run_engine_def e'_def)
  have h6: "KPipeline e ''a'' (constructed st) = None" by (simp add: e_def)
  have h6': "KPipeline e' ''a'' (constructed st) = Some (Exception ''no model'')"
    by (simp add: e'_def)
  have h7: "run_engine e (constructed st) ''hi'' ''af_nicole'' = Inl (Exception ''second'')"
    by (simp add: run_engine_def e_def st_def)
  from engine_failing_twice
         [OF h1 h2 h3 h4, where ?m0.0 = "''first''" and ?m1.0 = "''second''"] h5 h6 h7
  have a: "fst (synthesize_audio e (Some '' hi'') (Some ''af_nicole'') st) =
      Inl (TTSFailed ''af_nicole'' (Some (Exception ''second''))) \<and>
    pipelines (snd (synthesize_audio e (Some '' hi'') (Some ''af_nicole'') st)) ''a'' = None"
    by blast
  from engine_failing_twice
         [OF h1' h2 h3 h4', where ?m0.0 = "''first''" and exc = "Exception ''no model''"] h5' h6'
  have "synthesize_audio e' (Some '' hi'') (Some ''af_nicole'') st =
      (Inl (Uncaught (Exception ''no model'')),
       st\<lparr>pipelines := (pipelines st)(''a'' := None),
          trace := trace st @ [Call 0, Pop ''a'' (Some 0)]\<rparr>)"
    by blast
  then have b: "fst (synthesize_audio e' (Some '' hi'') (Some ''af_nicole'') st) =
      Inl (Uncaught (Exception ''no model'')) \<and>
    trace (snd (synthesize_audio e' (Some '' hi'') (Some ''af_nicole'') st)) =
      [Call 0, Pop ''a'' (Some 0)]"
    by (simp add: st_def)
  from a b show ?thesis unfolding e_def e'_def st_def by simp
qed

text \<open>
  The claim as the specification states it fails. With a pipeline cached for the language
  and an engine that raises on every call, the request pops the cache entry twice, each
  time removing a pipeline: the cached one, number 0, and the one constructed for the
  retry, number 1. The cause attached to the error is the exception of the second call.
\<close>

theorem engine_failing_twice_counterexample:
  "evictions ''a'' (trace (snd (synthesize_audio
     \<lparr>voice_catalog = [''af_nicole'' \<mapsto> ''a''], DEFAULT_VOICE = ''af_nicole'',
      KPipeline = (\<lambda>l n. None),
      engine = (\<lambda>p t v. Inl (Exception (if p = 0 then ''first'' else ''second''))),
      audio_to_wav_base64 = (\<lambda>a::int list. ''UklGRg=='')\<rparr>
     (Some ''hi'') (Some ''af_nicole'')
     \<lparr>pipelines = [''a'' \<mapsto> 0], constructed = 1, trace = []\<rparr>))) = [0, 1] \<and>
   fst (synthesize_audio
     \<lparr>voice_catalog = [''af_nicole'' \<mapsto> ''a''], DEFAULT_VOICE = ''af_nicole'',
      KPipeline = (\<lambda>l n. None),
      engine = (\<lambda>p t v. Inl (Exception (if p = 0 then ''first'' else ''second''))),
      audio_to_wav_base64 = (\<lambda>a::int list. ''UklGRg=='')\<rparr>
     (Some ''hi'') (Some ''af_nicole'')
     \<lparr>pipelines = [''a'' \<mapsto> 0], constructed = 1, trace = []\<rparr>) =
     Inl (TTSFailed ''af_nicole'' (Some (Exception ''second'')))"
  by code_simp

text \<open>
  When the second call returns audio, the request succeeds and the pipeline constructed
  for the retry stays in the cache.
\<close>

lemma retry_after_one_failure:
  assumes "get_voice_info e voice_name = Inr (voice, lang)"
    and "strip (case text of None \<Rightarrow> [] | Some t \<Rightarrow> t) = clean" and "clean \<noteq> []"
    and "get_pipeline e lang st = (Inr p0, st1)"
    and "run_engine e p0 clean voice = Inl (Exception m0)"
    and "KPipeline e lang (constructed st1) = None"
    and "run_engine e (constructed st1) clean voice = Inr audio"
  shows "fst (synthesize_audio e text voice_name st) =
           Inr (audio_to_wav_base64 e audio, voice) \<and>
         trace (snd (synthesize_audio e text voice_name st)) =
           trace st1 @ [Call p0, Pop lang (Some p0), Construct lang (constructed st1),
                        Call (constructed st1)] \<and>
         pipelines (snd (synthesize_audio e text voice_name st)) lang = Some (constructed st1)"
proof -
  let ?st2 = "st1\<lparr>trace := trace st1 @ [Call p0]\<rparr>"
  let ?st3 = "pop_pipeline lang ?st2"
  have c: "pipelines st1 lang = Some p0" using assms(4) by (rule get_pipeline_cached)
  have g: "get_pipeline e lang ?st3 =
      (Inr (constructed st1),
       ?st3\<lparr>pipelines := (pipelines ?st3)(lang \<mapsto> constructed st1),
          constructed := Suc (constructed st1),
          trace := trace ?st3 @ [Construct lang (constructed st1)]\<rparr>)"
    using get_pipeline_fresh [of ?st3 lang e] assms(6) by (simp add: pop_pipeline_def)
  have "synthesize_audio e text voice_name st =
      attempt_loop e clean voice lang None [0, 1] st"
    using assms(1-3) by (simp add: synthesize_audio_def)
  also have "\<dots> = attempt_loop e clean voice lang (Some (Exception m0)) [1] ?st3"
    using assms(4,5) by simp
  finally have "synthesize_audio e text voice_name st =
      attempt_loop e clean voice lang (Some (Exception m0)) [1] ?st3" .
  then show ?thesis
    using g assms(7) c by (simp add: pop_pipeline_def)
qed

end
